theory Spec2Isabelle
  imports
    Complex_Main
    "HOL-Library.Extended_Nat"
    "HOL-Library.Product_Lexorder"
    "HOL-Library.List_Lexorder"
    "HOL-Library.Char_ord"
    "HOL-Library.Multiset"
begin

chapter \<open>bookGenerator: a shallow embedding of \<open>book_generator.py\<close>\<close>

section \<open>The program\<close>

text \<open>
  The generator reads a manuscript, a directory of images and a preface PDF, and writes
  one PDF. Everything the Python obtains from outside (the directory listing, the pixels
  of an image, the height ReportLab measures for a paragraph, the pages ReportLab fills
  with the flowables it is given) is a parameter of the model. The colour sampler
  computes in double precision, and so does the model. Lengths on the page are Python
  floats too; they are modelled as real numbers. Exceptions are values of
  \<open>py_exception\<close>.
\<close>

datatype py_exception =
    DecodeError
  | ImageReadError
  | AttributeError
  | ZeroDivisionError
  | FileNotFoundError
  | LayoutError

subsection \<open>Double-precision arithmetic\<close>

text \<open>
  A Python float is an IEEE 754 binary64 number: a real number \<open>m * 2 ^ e\<close> with an
  integer \<open>m\<close> of at most 53 bits. Each arithmetic operation returns the exact result
  rounded to the nearest such number, to the one with the even \<open>m\<close> when two are equally
  near. \<open>exponent x\<close> is the \<open>e\<close> with \<open>2 ^ e \<le> \<bar>x\<bar> < 2 ^ (e + 1)\<close>, found by
  halving or doubling, and \<open>ulp x\<close> the distance between neighbouring doubles at \<open>x\<close>
  (\<open>2 ^ - 1074\<close> among the subnormal numbers). Results beyond the largest double, which
  Python gives as infinity, are not part of the model: the sampler stays far below.
\<close>

definition pow2 :: "int \<Rightarrow> real" where
  "pow2 e = (if 0 \<le> e then 2 ^ nat e else 1 / 2 ^ nat (- e))"

function exponent_up :: "real \<Rightarrow> int" where
  "exponent_up x = (if 2 \<le> x then exponent_up (x / 2) + 1 else 0)"
  by pat_completeness auto
termination
proof (relation "measure (\<lambda>x. nat \<lfloor>x\<rfloor>)")
  show "wf (measure (\<lambda>x::real. nat \<lfloor>x\<rfloor>))" by simp
next
  fix x :: real
  assume a: "2 \<le> x"
  then have "x / 2 \<le> x - 1" by simp
  then have "\<lfloor>x / 2\<rfloor> \<le> \<lfloor>x - 1\<rfloor>" by (rule floor_mono)
  then have "\<lfloor>x / 2\<rfloor> < \<lfloor>x\<rfloor>" by simp
  moreover have "0 < \<lfloor>x\<rfloor>" using a by simp
  ultimately show "(x / 2, x) \<in> measure (\<lambda>x. nat \<lfloor>x\<rfloor>)" by simp
qed

function exponent_down :: "real \<Rightarrow> int" where
  "exponent_down x = (if 0 < x \<and> x < 1 then exponent_down (2 * x) - 1 else 0)"
  by pat_completeness auto
termination
proof (relation "measure (\<lambda>x. nat \<lceil>1 / x\<rceil>)")
  show "wf (measure (\<lambda>x::real. nat \<lceil>1 / x\<rceil>))" by simp
next
  fix x :: real
  assume a: "0 < x \<and> x < 1"
  define y where "y = 1 / x"
  from a have y: "1 < y" by (simp add: y_def)
  have "of_int \<lceil>y / 2\<rceil> < y"
  proof (cases "2 \<le> y")
    case True
    have "of_int \<lceil>y / 2\<rceil> < y / 2 + 1" by linarith
    with True show ?thesis by linarith
  next
    case False
    then have "y / 2 \<le> 1" by simp
    then have "\<lceil>y / 2\<rceil> \<le> 1" by (simp add: ceiling_le_iff)
    then have "(of_int \<lceil>y / 2\<rceil> :: real) \<le> 1" by linarith
    with y show ?thesis by linarith
  qed
  then have "\<lceil>y / 2\<rceil> < \<lceil>y\<rceil>" by (simp add: less_ceiling_iff)
  then have "\<lceil>1 / (2 * x)\<rceil> < \<lceil>1 / x\<rceil>" by (simp add: y_def field_simps)
  moreover have "0 < \<lceil>1 / x\<rceil>" using a by simp
  ultimately show "(2 * x, x) \<in> measure (\<lambda>x. nat \<lceil>1 / x\<rceil>)" by simp
qed

definition exponent :: "real \<Rightarrow> int" where
  "exponent x = (if 1 \<le> \<bar>x\<bar> then exponent_up \<bar>x\<bar> else exponent_down \<bar>x\<bar>)"

definition round_half_even :: "real \<Rightarrow> int" where
  "round_half_even x =
     (let f = \<lfloor>x\<rfloor>;
          d = x - of_int f
      in if d < 1 / 2 then f
         else if 1 / 2 < d then f + 1
         else if even f then f else f + 1)"

definition ulp :: "real \<Rightarrow> real" where
  "ulp x = pow2 (max (exponent x) (- 1022) - 52)"

definition to_double :: "real \<Rightarrow> real" where
  "to_double x = of_int (round_half_even (x / ulp x)) * ulp x"

text \<open>Python's \<open>x * y\<close>, \<open>x + y\<close> and \<open>x / y\<close> on floats.\<close>

definition fmul :: "real \<Rightarrow> real \<Rightarrow> real" where
  "fmul x y = to_double (x * y)"

definition fadd :: "real \<Rightarrow> real \<Rightarrow> real" where
  "fadd x y = to_double (x + y)"

definition fdiv :: "real \<Rightarrow> real \<Rightarrow> real" where
  "fdiv x y = to_double (x / y)"

subsection \<open>Colour sampling\<close>

type_synonym rgb = "real \<times> real \<times> real"

text \<open>
  \<open>decode path\<close> stands for \<open>ImageStat.Stat(PILImage.open(path).convert("RGB").resize((64, 64))).mean\<close>:
  the mean colour of the downsampled image, three floats between 0 and 255, or the
  exception raised on the way.
\<close>

type_synonym decoder = "string \<Rightarrow> py_exception + rgb"

datatype text_color = White | Black

text \<open>\<open>colors.Color(r / 255.0, g / 255.0, b / 255.0)\<close>, or \<open>None\<close> from the handler.\<close>

definition color_from_image :: "decoder \<Rightarrow> string \<Rightarrow> rgb option" where
  "color_from_image decode path =
     (case decode path of
        Inr (r, g, b) \<Rightarrow> Some (fdiv r 255, fdiv g 255, fdiv b 255)
      | Inl e \<Rightarrow> None)"

text \<open>
  \<open>(0.299 * r + 0.587 * g + 0.114 * b) / 255.0\<close>: the three literals are the doubles
  nearest to the decimals, the products are added from left to right, and every
  operation rounds.
\<close>

definition luminance :: "rgb \<Rightarrow> real" where
  "luminance c =
     (case c of (r, g, b) \<Rightarrow>
        fdiv (fadd (fadd (fmul (to_double 0.299) r) (fmul (to_double 0.587) g))
                (fmul (to_double 0.114) b)) 255)"

definition text_color_for_image :: "decoder \<Rightarrow> string \<Rightarrow> real \<Rightarrow> text_color" where
  "text_color_for_image decode path threshold =
     (case decode path of
        Inr c \<Rightarrow> (if luminance c < threshold then White else Black)
      | Inl e \<Rightarrow> Black)"

text \<open>
  The page callback of \<open>make_on_page_callback\<close>: the result is the colour of the
  rectangle painted over the whole page, \<open>None\<close> when the callback returns without
  painting. The plan is the dictionary \<open>page_to_image_index\<close>.
\<close>

definition on_page ::
  "(nat \<rightharpoonup> nat) \<Rightarrow> string list \<Rightarrow> decoder \<Rightarrow> nat \<Rightarrow> rgb option" where
  "on_page page_to_image_index image_paths decode page_num =
     (case page_to_image_index page_num of
        None \<Rightarrow> None
      | Some img_idx \<Rightarrow>
          (if img_idx < length image_paths
           then color_from_image decode (image_paths ! img_idx)
           else None))"

subsection \<open>The text fitter\<close>

text \<open>
  A paragraph style keeps the fields the generator sets: font size, leading and text
  colour (the style's name is a label only and is left out). A paragraph is its markup
  and its style (\<open>fsize\<close> is the source's \<open>size\<close>). \<open>wrap para w h\<close> is the height returned by \<open>para.wrap(w, h)\<close>.
\<close>

record paragraph_style =
  fontSize :: int
  leading :: int
  textColor :: text_color

record para =
  para_text :: string
  para_style :: "paragraph_style"

type_synonym wrapper = "para \<Rightarrow> real \<Rightarrow> real \<Rightarrow> real"

definition sized_paragraph :: "string \<Rightarrow> paragraph_style \<Rightarrow> int \<Rightarrow> para" where
  "sized_paragraph html_text base_style fsize =
     \<lparr>para_text = html_text,
      para_style = base_style\<lparr>fontSize := fsize, leading := fsize + 4\<rparr>\<rparr>"

function fitting_loop ::
  "wrapper \<Rightarrow> string \<Rightarrow> paragraph_style \<Rightarrow> real \<Rightarrow> real \<Rightarrow> int \<Rightarrow> int \<Rightarrow> para option
     \<Rightarrow> para option \<times> int" where
  "fitting_loop wrap html_text base_style max_width max_height min_font_size fsize last_para =
     (if fsize \<ge> min_font_size then
        (let para = sized_paragraph html_text base_style fsize;
             h = wrap para max_width max_height
         in if h \<le> max_height then (Some para, fsize)
            else fitting_loop wrap html_text base_style max_width max_height min_font_size
                   (fsize - 1) (Some para))
      else (last_para, min_font_size))"
  by pat_completeness auto
termination
  by (relation "measure (\<lambda>(wrap, html_text, base_style, max_width, max_height, min_font_size, fsize, last_para).
        nat (fsize + 1 - min_font_size))") auto

definition create_fitting_paragraph ::
  "wrapper \<Rightarrow> string \<Rightarrow> paragraph_style \<Rightarrow> real \<Rightarrow> real \<Rightarrow> int \<Rightarrow> int
     \<Rightarrow> para option \<times> int" where
  "create_fitting_paragraph wrap html_text base_style max_width max_height base_font_size min_font_size =
     fitting_loop wrap html_text base_style max_width max_height min_font_size base_font_size None"

text \<open>The test of the loop, as a predicate on sizes.\<close>

definition fits :: "wrapper \<Rightarrow> string \<Rightarrow> paragraph_style \<Rightarrow> real \<Rightarrow> real \<Rightarrow> int \<Rightarrow> bool" where
  "fits wrap html_text base_style max_width max_height fsize =
     (wrap (sized_paragraph html_text base_style fsize) max_width max_height \<le> max_height)"


subsection \<open>Text composition\<close>

text \<open>
  Characters are bytes here, so the model covers ASCII text. \<open>is_space\<close> is what
  \<open>str.strip()\<close> removes and what \<open>\s\<close> matches among the ASCII characters.
\<close>

definition is_space :: "char \<Rightarrow> bool" where
  "is_space c = (let n = (of_char c :: nat) in (9 \<le> n \<and> n \<le> 13) \<or> (28 \<le> n \<and> n \<le> 32))"

definition strip :: "string \<Rightarrow> string" where
  "strip s = rev (dropWhile is_space (rev (dropWhile is_space s)))"

definition newline :: char where
  "newline = CHR 0x0A"

text \<open>\<open>text.split("\n\n")\<close>: the pieces between successive, non-overlapping double newlines.\<close>

fun split_blank :: "string \<Rightarrow> string \<Rightarrow> string list" where
  "split_blank acc [] = [rev acc]"
| "split_blank acc [c] = [rev (c # acc)]"
| "split_blank acc (c # d # cs) =
     (if c = newline \<and> d = newline then rev acc # split_blank [] cs
      else split_blank (c # acc) (d # cs))"

definition is_sentence_end :: "char \<Rightarrow> bool" where
  "is_sentence_end c = (c = CHR ''.'' \<or> c = CHR ''!'' \<or> c = CHR ''?'')"

text \<open>
  \<open>re.split(r'(?<=[.!?])\s+', s)\<close>: a run of white space is a separator when the character
  before it ends a sentence. \<open>after_end\<close> says whether the previous character does.
\<close>

function re_split :: "bool \<Rightarrow> string \<Rightarrow> string \<Rightarrow> string list" where
  "re_split after_end acc [] = [rev acc]"
| "re_split after_end acc (c # cs) =
     (if after_end \<and> is_space c then rev acc # re_split False [] (dropWhile is_space cs)
      else re_split (is_sentence_end c) (c # acc) cs)"
  by pat_completeness auto
termination
  by (relation "measure (\<lambda>(after_end, acc, cs). length cs)")
     (auto simp add: less_Suc_eq_le length_dropWhile_le)

definition split_into_sentences :: "string \<Rightarrow> string list" where
  "split_into_sentences text = filter (\<lambda>p. p \<noteq> []) (re_split False [] (strip text))"

text \<open>\<open>sep.join(parts)\<close>.\<close>

fun join :: "string \<Rightarrow> string list \<Rightarrow> string" where
  "join sep [] = []"
| "join sep [x] = x"
| "join sep (x # y # ys) = x @ sep @ join sep (y # ys)"

definition sentence_break :: string where
  "sentence_break = ''<br/><br/>''"

definition paragraph_break :: string where
  "paragraph_break = ''<br/><br/>''"

definition raw_chunks :: "string \<Rightarrow> string list" where
  "raw_chunks page_text = filter (\<lambda>p. p \<noteq> []) (map strip (split_blank [] page_text))"

definition chunk_html :: "string \<Rightarrow> string" where
  "chunk_html chunk = join sentence_break (split_into_sentences chunk)"

definition compose_html :: "string \<Rightarrow> string" where
  "compose_html page_text =
     (let chunk_html_parts = map chunk_html (raw_chunks page_text)
      in if chunk_html_parts \<noteq> [] then join paragraph_break chunk_html_parts else [])"

subsection \<open>Image discovery\<close>

text \<open>
  \<open>os.path.basename\<close>, the root of \<open>os.path.splitext\<close> (the last dot starts the extension
  unless only dots precede it), \<open>str.lower\<close> and \<open>int\<close> on ASCII.
\<close>

definition basename :: "string \<Rightarrow> string" where
  "basename path = rev (takeWhile (\<lambda>c. c \<noteq> CHR ''/'') (rev path))"

definition splitext_root :: "string \<Rightarrow> string" where
  "splitext_root p =
     (if CHR ''.'' \<in> set p then
        (let root = rev (tl (dropWhile (\<lambda>c. c \<noteq> CHR ''.'') (rev p)))
         in if \<exists>c \<in> set root. c \<noteq> CHR ''.'' then root else p)
      else p)"

definition is_digit :: "char \<Rightarrow> bool" where
  "is_digit c = (let n = (of_char c :: nat) in 48 \<le> n \<and> n \<le> 57)"

definition lower_char :: "char \<Rightarrow> char" where
  "lower_char c = (let n = (of_char c :: nat) in if 65 \<le> n \<and> n \<le> 90 then char_of (n + 32) else c)"

definition lower :: "string \<Rightarrow> string" where
  "lower s = map lower_char s"

definition int_of_digits :: "string \<Rightarrow> nat" where
  "int_of_digits ds = foldl (\<lambda>a c. 10 * a + (of_char c - 48)) 0 ds"

text \<open>\<open>re.search(r'\d+', name)\<close>: the first run of digits, empty when there is none.\<close>

definition first_digit_run :: "string \<Rightarrow> string" where
  "first_digit_run name = takeWhile is_digit (dropWhile (\<lambda>c. \<not> is_digit c) name)"

text \<open>The sort key; \<open>\<infinity>\<close> is \<open>float("inf")\<close>.\<close>

definition numeric_key :: "string \<Rightarrow> enat \<times> string" where
  "numeric_key path =
     (let name = splitext_root (basename path);
          m = first_digit_run name
      in if m \<noteq> [] then (enat (int_of_digits m), lower name) else (\<infinity>, lower name))"

text \<open>
  \<open>glob(os.path.join(images_dir, pattern))\<close> for a pattern \<open>*.ext\<close>, over the names the
  directory holds, in the order the system lists them: the names that end with the
  extension and do not start with a dot.
\<close>

definition endswith :: "string \<Rightarrow> string \<Rightarrow> bool" where
  "endswith s suffix = (length suffix \<le> length s \<and> drop (length s - length suffix) s = suffix)"

definition path_join :: "string \<Rightarrow> string \<Rightarrow> string" where
  "path_join dir name =
     (if dir = [] \<or> last dir = CHR ''/'' then dir @ name else dir @ ''/'' @ name)"

definition glob_ext :: "string \<Rightarrow> string list \<Rightarrow> string \<Rightarrow> string list" where
  "glob_ext images_dir listing ext =
     map (path_join images_dir)
       (filter (\<lambda>name. name \<noteq> [] \<and> hd name \<noteq> CHR ''.'' \<and> endswith name ext) listing)"

definition exts :: "string list" where
  "exts = [''.png'', ''.jpg'', ''.jpeg'', ''.PNG'', ''.JPG'', ''.JPEG'']"

definition load_image_paths :: "string \<Rightarrow> string list \<Rightarrow> string list" where
  "load_image_paths images_dir listing =
     sort_key numeric_key (concat (map (glob_ext images_dir listing) exts))"

subsection \<open>Assembling the body document\<close>

text \<open>
  The story handed to ReportLab is a list of flowables. A full-page image records its path,
  the page size and the pixel size that \<open>ImageReader(path).getSize()\<close> returned.
\<close>

datatype flowable =
    Spacer real real
  | Paragraph para
  | PageBreak
  | FullPageImage string real real "nat \<times> nat"

record manuscript =
  title :: string
  author :: string
  pages :: "string list"

text \<open>
  \<open>layout width height flowables\<close> stands for what ReportLab does, in a frame of that
  width and height, with the flowables that a page break ends or that end the story: the
  pages it fills with them, in order. That is one page when they fit the frame. When a
  paragraph does not fit what is left of the frame, ReportLab splits it and carries the
  rest over to a further page, and so on; when a flowable can neither be placed nor split
  it raises \<open>LayoutError\<close>.
\<close>

type_synonym layouter = "flowable list \<Rightarrow> py_exception + flowable list list"

text \<open>
  What the run reads from outside: the names in the image directory, the decoder of the
  colour sampler, the size reader of \<open>FullPageImage\<close> (\<open>None\<close> when \<open>ImageReader\<close>
  raises), the height measured by \<open>Paragraph.wrap\<close> and the layout of ReportLab.
\<close>

record environment =
  env_listing :: "string list"
  env_decode :: decoder
  env_image_size :: "string \<Rightarrow> (nat \<times> nat) option"
  env_wrap :: wrapper
  env_layout :: "real \<Rightarrow> real \<Rightarrow> layouter"

definition inch :: real where
  "inch = 72"

text \<open>The first loop of \<open>build_inner_book\<close>: the plan and the page counter after it.\<close>

fun plan_pages ::
  "nat \<Rightarrow> nat \<Rightarrow> nat \<Rightarrow> nat \<Rightarrow> (nat \<rightharpoonup> nat) \<Rightarrow> (nat \<rightharpoonup> nat) \<times> nat" where
  "plan_pages 0 n_images current_page img_index page_to_image_index =
     (page_to_image_index, current_page)"
| "plan_pages (Suc k) n_images current_page img_index page_to_image_index =
     plan_pages k n_images (current_page + 2) (img_index + 1)
       (if img_index < n_images then page_to_image_index(current_page \<mapsto> img_index)
        else page_to_image_index)"

definition title_style :: paragraph_style where
  "title_style = \<lparr>fontSize = 26, leading = 30, textColor = Black\<rparr>"

definition author_style :: paragraph_style where
  "author_style = \<lparr>fontSize = 18, leading = 22, textColor = Black\<rparr>"

definition body_base :: "int \<Rightarrow> paragraph_style" where
  "body_base font_size = \<lparr>fontSize = font_size, leading = font_size + 4, textColor = Black\<rparr>"

definition title_story :: "wrapper \<Rightarrow> string \<Rightarrow> string \<Rightarrow> real \<Rightarrow> real \<Rightarrow> flowable list" where
  "title_story wrap ttl auth usable_width usable_height =
     (let title_para = \<lparr>para_text = ttl, para_style = title_style\<rparr>;
          author_para = (if auth \<noteq> [] then Some \<lparr>para_text = ''by '' @ auth, para_style = author_style\<rparr>
                         else None);
          th = wrap title_para usable_width usable_height;
          total_height = (case author_para of
                            Some ap \<Rightarrow> th + (0.25 * inch + wrap ap usable_width usable_height)
                          | None \<Rightarrow> th);
          top_space = (if total_height < usable_height then (usable_height - total_height) / 2 else 0)
      in [Spacer 1 top_space, Paragraph title_para] @
         (case author_para of
            Some ap \<Rightarrow> [Spacer 1 (0.25 * inch), Paragraph ap]
          | None \<Rightarrow> []) @
         [PageBreak])"

text \<open>
  The second loop. \<open>para.wrap\<close> on the \<open>None\<close> that the fitter returns when the base size
  is below the floor raises \<open>AttributeError\<close>; the constructor of \<open>FullPageImage\<close> raises
  when the image cannot be read. Either ends the run.
\<close>

fun body_story ::
  "environment \<Rightarrow> string list \<Rightarrow> int \<Rightarrow> real \<Rightarrow> real \<Rightarrow> real \<Rightarrow> real \<Rightarrow> nat \<Rightarrow> string list
     \<Rightarrow> py_exception + flowable list" where
  "body_story env image_paths font_size page_width page_height usable_width usable_height
     img_index [] = Inr []"
| "body_story env image_paths font_size page_width page_height usable_width usable_height
     img_index (page_text # rest) =
     (let html_text = compose_html page_text;
          text_color = (if img_index < length image_paths
                        then text_color_for_image (env_decode env) (image_paths ! img_index) 0.5
                        else Black);
          page_style = (body_base font_size)\<lparr>textColor := text_color\<rparr>
      in case create_fitting_paragraph (env_wrap env) html_text page_style
                usable_width usable_height font_size 5 of
           (None, used_size) \<Rightarrow> Inl AttributeError
         | (Some para, used_size) \<Rightarrow>
             (let h = env_wrap env para usable_width usable_height;
                  top_space = (if h < usable_height then (usable_height - h) / 2 else 0);
                  text_part = [Spacer 1 top_space, Paragraph para, PageBreak]
              in if img_index < length image_paths then
                   (let img_path = image_paths ! img_index
                    in case env_image_size env img_path of
                         None \<Rightarrow> Inl ImageReadError
                       | Some sz \<Rightarrow>
                           (case body_story env image_paths font_size page_width page_height
                                   usable_width usable_height (img_index + 1) rest of
                              Inl e \<Rightarrow> Inl e
                            | Inr following \<Rightarrow>
                                Inr (text_part @
                                     [FullPageImage img_path page_width page_height sz, PageBreak] @
                                     following)))
                 else
                   (case body_story env image_paths font_size page_width page_height
                           usable_width usable_height img_index rest of
                      Inl e \<Rightarrow> Inl e
                    | Inr following \<Rightarrow> Inr (text_part @ [PageBreak] @ following))))"

text \<open>
  The story of \<open>build_inner_book\<close>: the title block, when there is a title, and the
  flowables of the second loop.
\<close>

definition build_story ::
  "environment \<Rightarrow> manuscript \<Rightarrow> string \<Rightarrow> int \<Rightarrow> real \<Rightarrow> real \<Rightarrow> real
     \<Rightarrow> py_exception + flowable list" where
  "build_story env data images_dir font_size margin_inch page_width_inch page_height_inch =
     (let has_title = (title data \<noteq> []);
          image_paths = load_image_paths images_dir (env_listing env);
          page_width = page_width_inch * inch;
          page_height = page_height_inch * inch;
          margin = margin_inch * inch;
          usable_width = page_width - 2 * margin;
          usable_height = page_height - 2 * margin;
          front = (if has_title
                   then title_story (env_wrap env) (title data) (author data) usable_width usable_height
                   else [])
      in case body_story env image_paths font_size page_width page_height
                usable_width usable_height 0 (pages data) of
           Inl e \<Rightarrow> Inl e
         | Inr body \<Rightarrow> Inr (front @ body))"

text \<open>
  \<open>doc.build(story)\<close> with the page template of one frame. A \<open>PageBreak\<close> ends the page
  being filled, also an empty one, and what follows starts on a new page; after the last
  break there is no further page. \<open>break_groups\<close> cuts the story at its breaks.
\<close>

fun break_groups :: "flowable list \<Rightarrow> flowable list \<Rightarrow> flowable list list" where
  "break_groups cur [] = (if cur = [] then [] else [rev cur])"
| "break_groups cur (PageBreak # fs) = rev cur # break_groups [] fs"
| "break_groups cur (f # fs) = break_groups (f # cur) fs"

text \<open>
  The flowables between two breaks go through the frame, which may need more than one
  page for them; two breaks with nothing between them give one empty page.
\<close>

fun layout_groups :: "layouter \<Rightarrow> flowable list list \<Rightarrow> py_exception + flowable list list" where
  "layout_groups layout [] = Inr []"
| "layout_groups layout (g # gs) =
     (case (if g = [] then Inr [[]] else layout g) of
        Inl e \<Rightarrow> Inl e
      | Inr filled \<Rightarrow>
          (case layout_groups layout gs of
             Inl e \<Rightarrow> Inl e
           | Inr following \<Rightarrow> Inr (filled @ following)))"

record rendered_page =
  background :: "rgb option"
  content :: "flowable list"

text \<open>The callback runs for each page with its number, counted from 1.\<close>

definition doc_build ::
  "layouter \<Rightarrow> (nat \<Rightarrow> rgb option) \<Rightarrow> flowable list \<Rightarrow> py_exception + rendered_page list" where
  "doc_build layout page_callback story =
     (case layout_groups layout (break_groups [] story) of
        Inl e \<Rightarrow> Inl e
      | Inr filled \<Rightarrow>
          Inr (map (\<lambda>(i, fs). \<lparr>background = page_callback (i + 1), content = fs\<rparr>)
                 (List.enumerate 0 filled)))"

text \<open>
  \<open>build_inner_book\<close>: the plan, the frame of lines 203 to 209, the story, and the build.
  The pages of the PDF written to \<open>output_path\<close> are the result.
\<close>

definition build_inner_book ::
  "environment \<Rightarrow> manuscript \<Rightarrow> string \<Rightarrow> int \<Rightarrow> real \<Rightarrow> real \<Rightarrow> real
     \<Rightarrow> py_exception + rendered_page list" where
  "build_inner_book env data images_dir font_size margin_inch page_width_inch page_height_inch =
     (let has_title = (title data \<noteq> []);
          image_paths = load_image_paths images_dir (env_listing env);
          page_width = page_width_inch * inch;
          page_height = page_height_inch * inch;
          margin = margin_inch * inch;
          frame = env_layout env (page_width - 2 * margin) (page_height - 2 * margin);
          current_page = (if has_title then 2 else 1);
          page_to_image_index =
            fst (plan_pages (length (pages data)) (length image_paths) current_page 0 Map.empty)
      in case build_story env data images_dir font_size margin_inch page_width_inch
                page_height_inch of
           Inl e \<Rightarrow> Inl e
         | Inr story \<Rightarrow>
             doc_build frame (on_page page_to_image_index image_paths (env_decode env)) story)"

subsection \<open>Merging the preface and the body\<close>

text \<open>
  A PDF page as the merge sees it: its five boxes and the transformations added to its
  content, oldest first. A transformation built by \<open>scale\<close> and \<open>translate\<close> from the
  identity has two scale factors and two offsets.
\<close>

record rect =
  lower_left :: "real \<times> real"
  upper_right :: "real \<times> real"

definition rect_width :: "rect \<Rightarrow> real" where
  "rect_width box = fst (upper_right box) - fst (lower_left box)"

definition rect_height :: "rect \<Rightarrow> real" where
  "rect_height box = snd (upper_right box) - snd (lower_left box)"

record transformation =
  scale_x :: real
  scale_y :: real
  shift_x :: real
  shift_y :: real

definition identity_transformation :: transformation where
  "identity_transformation = \<lparr>scale_x = 1, scale_y = 1, shift_x = 0, shift_y = 0\<rparr>"

definition scale_by :: "real \<Rightarrow> real \<Rightarrow> transformation \<Rightarrow> transformation" where
  "scale_by sx sy t =
     \<lparr>scale_x = scale_x t * sx, scale_y = scale_y t * sy,
      shift_x = shift_x t * sx, shift_y = shift_y t * sy\<rparr>"

definition translate_by :: "real \<Rightarrow> real \<Rightarrow> transformation \<Rightarrow> transformation" where
  "translate_by tx ty t = t\<lparr>shift_x := shift_x t + tx, shift_y := shift_y t + ty\<rparr>"

record pdf_page =
  mediabox :: rect
  cropbox :: rect
  trimbox :: rect
  bleedbox :: rect
  artbox :: rect
  content_transforms :: "transformation list"

definition add_transformation :: "pdf_page \<Rightarrow> transformation \<Rightarrow> pdf_page" where
  "add_transformation page t = page\<lparr>content_transforms := content_transforms page @ [t]\<rparr>"

text \<open>
  \<open>_set_all_boxes\<close>. A pypdf page answers each of the five box attributes with a
  rectangle, so the guard \<open>box is not None\<close> always passes.
\<close>

definition stamp :: "rect \<Rightarrow> real \<Rightarrow> real \<Rightarrow> rect" where
  "stamp box width height = box\<lparr>lower_left := (0, 0), upper_right := (width, height)\<rparr>"

definition set_all_boxes :: "pdf_page \<Rightarrow> real \<Rightarrow> real \<Rightarrow> pdf_page" where
  "set_all_boxes page width height =
     page\<lparr>mediabox := stamp (mediabox page) width height,
          cropbox := stamp (cropbox page) width height,
          trimbox := stamp (trimbox page) width height,
          bleedbox := stamp (bleedbox page) width height,
          artbox := stamp (artbox page) width height\<rparr>"

definition TOL :: real where
  "TOL = 1"

text \<open>The body of the loop over the preface pages; dividing by a zero width or height raises.\<close>

definition merge_preface_page :: "real \<Rightarrow> real \<Rightarrow> pdf_page \<Rightarrow> py_exception + pdf_page" where
  "merge_preface_page target_w target_h page =
     (let w = rect_width (mediabox page);
          h = rect_height (mediabox page)
      in if \<bar>w - target_w\<bar> \<le> TOL \<and> \<bar>h - target_h\<bar> \<le> TOL then
           Inr (set_all_boxes page target_w target_h)
         else if w = 0 \<or> h = 0 then Inl ZeroDivisionError
         else
           (let scale = min (target_w / w) (target_h / h);
                new_w = w * scale;
                new_h = h * scale;
                dx = (target_w - new_w) / 2;
                dy = (target_h - new_h) / 2;
                page1 = set_all_boxes page w h;
                transform = translate_by dx dy (scale_by scale scale identity_transformation);
                page2 = add_transformation page1 transform
            in Inr (set_all_boxes page2 target_w target_h)))"

fun merge_preface_pages :: "real \<Rightarrow> real \<Rightarrow> pdf_page list \<Rightarrow> py_exception + pdf_page list" where
  "merge_preface_pages target_w target_h [] = Inr []"
| "merge_preface_pages target_w target_h (page # rest) =
     (case merge_preface_page target_w target_h page of
        Inl e \<Rightarrow> Inl e
      | Inr page' \<Rightarrow>
          (case merge_preface_pages target_w target_h rest of
             Inl e \<Rightarrow> Inl e
           | Inr rest' \<Rightarrow> Inr (page' # rest')))"

text \<open>
  \<open>merge_preface_and_book\<close>; a file that does not exist is \<open>None\<close>, the pages written to
  \<open>final_output\<close> are the result.
\<close>

definition merge_preface_and_book ::
  "pdf_page list option \<Rightarrow> pdf_page list option \<Rightarrow> real \<Rightarrow> real \<Rightarrow> py_exception + pdf_page list" where
  "merge_preface_and_book preface inner_book page_width_inch page_height_inch =
     (case preface of
        None \<Rightarrow> Inl FileNotFoundError
      | Some preface_pages \<Rightarrow>
          (case inner_book of
             None \<Rightarrow> Inl FileNotFoundError
           | Some inner_pages \<Rightarrow>
               (let target_w = page_width_inch * 72;
                    target_h = page_height_inch * 72
                in case merge_preface_pages target_w target_h preface_pages of
                     Inl e \<Rightarrow> Inl e
                   | Inr front \<Rightarrow>
                       Inr (front @ map (\<lambda>page. set_all_boxes page target_w target_h) inner_pages))))"

section \<open>Predicates and sample inputs\<close>

subsection \<open>Target geometry and sample pages\<close>

definition target_box :: "real \<Rightarrow> real \<Rightarrow> rect" where
  "target_box width height = \<lparr>lower_left = (0, 0), upper_right = (width, height)\<rparr>"

text \<open>All five boxes of the page are the target rectangle at the origin.\<close>

definition at_target :: "real \<Rightarrow> real \<Rightarrow> pdf_page \<Rightarrow> bool" where
  "at_target width height page =
     (mediabox page = target_box width height \<and> cropbox page = target_box width height \<and>
      trimbox page = target_box width height \<and> bleedbox page = target_box width height \<and>
      artbox page = target_box width height)"

text \<open>
  For the default page of 8.625 by 8.75 inches (621 by 630 points): a page twice as wide,
  its merged form, and a page half a point wider than the target whose media box does not
  start at the origin.
\<close>

definition wide_page :: pdf_page where
  "wide_page =
     \<lparr>mediabox = target_box 1242 630, cropbox = target_box 1242 630,
      trimbox = target_box 1242 630, bleedbox = target_box 1242 630,
      artbox = target_box 1242 630, content_transforms = []\<rparr>"

definition wide_page_merged :: pdf_page where
  "wide_page_merged =
     \<lparr>mediabox = target_box 621 630, cropbox = target_box 621 630,
      trimbox = target_box 621 630, bleedbox = target_box 621 630,
      artbox = target_box 621 630,
      content_transforms = [\<lparr>scale_x = 1 / 2, scale_y = 1 / 2, shift_x = 0, shift_y = 157.5\<rparr>]\<rparr>"

definition near_page :: pdf_page where
  "near_page =
     \<lparr>mediabox = \<lparr>lower_left = (10, 10), upper_right = (631.5, 640)\<rparr>,
      cropbox = target_box 621.5 630, trimbox = target_box 621.5 630,
      bleedbox = target_box 621.5 630, artbox = target_box 621.5 630,
      content_transforms = []\<rparr>"

definition near_page_merged :: pdf_page where
  "near_page_merged =
     \<lparr>mediabox = target_box 621 630, cropbox = target_box 621 630,
      trimbox = target_box 621 630, bleedbox = target_box 621 630,
      artbox = target_box 621 630, content_transforms = []\<rparr>"

subsection \<open>Reading the pages of a built document\<close>






subsection \<open>Pages that hold what the story puts on them\<close>


subsection \<open>A sample book\<close>

text \<open>
  Two wrappers for the samples. For the first a block is thirty times as high as its
  font size. For the second a block has one line for every two characters of its markup:
  its height is half its length times the leading.
\<close>

definition linear_wrap :: wrapper where
  "linear_wrap p w h = 30 * real_of_int (fontSize (para_style p))"

definition block_wrap :: wrapper where
  "block_wrap p w h = real (length (para_text p)) * real_of_int (leading (para_style p)) / 2"

definition plain_style :: paragraph_style where
  "plain_style = \<lparr>fontSize = 20, leading = 24, textColor = Black\<rparr>"

text \<open>
  A frame for the samples. It keeps 6 points of padding on each side, as a ReportLab
  frame does unless told otherwise, and stacks the flowables: a spacer takes its height, a
  paragraph the height that the wrapper measures in the padded frame, and a full-page
  image none (its \<open>wrap\<close> answers \<open>(0, 0)\<close>). Flowables that fit together fill one page.
  Otherwise the text runs on: the paragraphs appear again on as many further pages as the
  whole height needs.
\<close>

fun flowable_height :: "wrapper \<Rightarrow> real \<Rightarrow> real \<Rightarrow> flowable \<Rightarrow> real" where
  "flowable_height wrap avail_width avail_height (Spacer w h) = h"
| "flowable_height wrap avail_width avail_height (Paragraph p) = wrap p avail_width avail_height"
| "flowable_height wrap avail_width avail_height PageBreak = 0"
| "flowable_height wrap avail_width avail_height (FullPageImage path pw ph sz) = 0"

fun is_paragraph :: "flowable \<Rightarrow> bool" where
  "is_paragraph (Paragraph p) = True"
| "is_paragraph f = False"

definition frame_layout :: "wrapper \<Rightarrow> real \<Rightarrow> real \<Rightarrow> layouter" where
  "frame_layout wrap width height g =
     (let avail_width = width - 12;
          avail_height = height - 12;
          total = sum_list (map (flowable_height wrap avail_width avail_height) g)
      in if total \<le> avail_height then Inr [g]
         else if avail_height \<le> 0 then Inl LayoutError
         else Inr (g # replicate (nat \<lceil>total / avail_height\<rceil> - 1) (filter is_paragraph g)))"

text \<open>
  The manuscript \<open>{title: "T", author: "A", pages: ["Hello. World."]}\<close> with one black
  image \<open>img1.png\<close> of 800 by 600 pixels, at the default sizes, measured by the second
  wrapper and laid out by the sample frame.
\<close>

definition book_decode :: decoder where
  "book_decode path = (if path = ''images/img1.png'' then Inr (0, 0, 0) else Inl DecodeError)"

definition book_env :: environment where
  "book_env =
     \<lparr>env_listing = [''img1.png''],
      env_decode = book_decode,
      env_image_size = (\<lambda>path. if path = ''images/img1.png'' then Some (800, 600) else None),
      env_wrap = block_wrap,
      env_layout = frame_layout block_wrap\<rparr>"

definition book_manuscript :: manuscript where
  "book_manuscript = \<lparr>title = ''T'', author = ''A'', pages = [''Hello. World.'']\<rparr>"






text \<open>
  The text page of the second loop for one manuscript page: the spacer that centres the
  fitted paragraph, and the paragraph.
\<close>

definition text_part ::
  "environment \<Rightarrow> string list \<Rightarrow> int \<Rightarrow> real \<Rightarrow> real \<Rightarrow> nat \<Rightarrow> string \<Rightarrow> flowable list" where
  "text_part env image_paths font_size uw uh k page_text =
     (let text_color = (if k < length image_paths
                        then text_color_for_image (env_decode env) (image_paths ! k) 0.5
                        else Black);
          page_style = (body_base font_size)\<lparr>textColor := text_color\<rparr>;
          r = create_fitting_paragraph (env_wrap env) (compose_html page_text) page_style
                uw uh font_size 5;
          para = sized_paragraph (compose_html page_text) page_style (snd r);
          h = env_wrap env para uw uh
      in [Spacer 1 (if h < uh then (uh - h) / 2 else 0), Paragraph para])"

subsection \<open>Sentence boundaries and a sample page\<close>

text \<open>
  A string has a boundary when one of \<open>.\<close>, \<open>!\<close>, \<open>?\<close> in it is directly followed by
  white space: the places where \<open>split_into_sentences\<close> cuts.
\<close>

fun has_boundary :: "string \<Rightarrow> bool" where
  "has_boundary (c # d # cs) = ((is_sentence_end c \<and> is_space d) \<or> has_boundary (d # cs))"
| "has_boundary cs = False"

text \<open>A string has a blank line when two newlines follow each other in it.\<close>

fun has_blank_line :: "string \<Rightarrow> bool" where
  "has_blank_line (c # d # cs) = ((c = newline \<and> d = newline) \<or> has_blank_line (d # cs))"
| "has_blank_line cs = False"

text \<open>A page of two paragraphs: three sentences, then two sentences on two lines.\<close>

definition sample_text :: string where
  "sample_text = ''one. two!  three'' @ [newline, newline] @ '' four?'' @ [newline] @ ''five ''"

subsection \<open>The answer of the fitting loop, sample images and a sample directory\<close>

text \<open>
  What the loop started at \<open>fsize\<close> may answer: a size \<open>r\<close> between the floor and
  \<open>fsize\<close>, above which nothing fits, and which fits itself unless nothing fits at all,
  in which case it is the floor.
\<close>

definition chosen_ok ::
  "wrapper \<Rightarrow> string \<Rightarrow> paragraph_style \<Rightarrow> real \<Rightarrow> real \<Rightarrow> int \<Rightarrow> int \<Rightarrow> int \<Rightarrow> bool" where
  "chosen_ok wrap t st mw mh mn fsize r =
     (mn \<le> r \<and> r \<le> fsize \<and>
      (\<forall>s. r < s \<and> s \<le> fsize \<longrightarrow> \<not> fits wrap t st mw mh s) \<and>
      (fits wrap t st mw mh r \<or>
       (r = mn \<and> (\<forall>s. mn \<le> s \<and> s \<le> fsize \<longrightarrow> \<not> fits wrap t st mw mh s))))"

text \<open>
  Four images for the colour sampler: black, white, a grey of mean 127.5 and a green of
  mean \<open>(0, 204, 68)\<close>, the last two of luminance 0.5 in exact arithmetic; any other
  path does not decode.
\<close>

definition sample_decode :: decoder where
  "sample_decode path =
     (if path = ''black.png'' then Inr (0, 0, 0)
      else if path = ''white.png'' then Inr (255, 255, 255)
      else if path = ''grey.png'' then Inr (127.5, 127.5, 127.5)
      else if path = ''green.png'' then Inr (0, 204, 68)
      else Inl DecodeError)"

text \<open>
  A directory with three numbered images, two unnumbered ones, a hidden file and a file
  that is no image.
\<close>

definition sample_listing :: "string list" where
  "sample_listing =
     [''img2.png'', ''imgA.png'', ''img10.PNG'', ''.hidden.png'', ''b.jpeg'', ''notes.txt'',
      ''img1.jpg'']"

section \<open>Properties\<close>

subsection \<open>The text fitter\<close>

declare fitting_loop.simps [simp del]

lemma fitting_loop_below:
  "fsize < mn \<Longrightarrow> fitting_loop wrap t st mw mh mn fsize lp = (lp, mn)"
  by (subst fitting_loop.simps) simp

lemma fitting_loop_fit:
  "mn \<le> fsize \<Longrightarrow> fits wrap t st mw mh fsize \<Longrightarrow>
   fitting_loop wrap t st mw mh mn fsize lp = (Some (sized_paragraph t st fsize), fsize)"
  by (subst fitting_loop.simps) (simp add: fits_def Let_def)

lemma fitting_loop_shrink:
  "mn \<le> fsize \<Longrightarrow> \<not> fits wrap t st mw mh fsize \<Longrightarrow>
   fitting_loop wrap t st mw mh mn fsize lp =
   fitting_loop wrap t st mw mh mn (fsize - 1) (Some (sized_paragraph t st fsize))"
  by (subst fitting_loop.simps) (simp add: fits_def Let_def)

lemma chosen_ok_step:
  assumes ok: "chosen_ok wrap t st mw mh mn (fsize - 1) r"
    and nofit: "\<not> fits wrap t st mw mh fsize"
  shows "chosen_ok wrap t st mw mh mn fsize r"
proof -
  have split: "\<And>s. s \<le> fsize \<Longrightarrow> s \<le> fsize - 1 \<or> s = fsize" by arith
  from ok have a: "mn \<le> r" and b: "r \<le> fsize - 1"
    and c: "\<And>s. r < s \<Longrightarrow> s \<le> fsize - 1 \<Longrightarrow> \<not> fits wrap t st mw mh s"
    and d: "fits wrap t st mw mh r \<or>
            (r = mn \<and> (\<forall>s. mn \<le> s \<and> s \<le> fsize - 1 \<longrightarrow> \<not> fits wrap t st mw mh s))"
    unfolding chosen_ok_def by blast+
  have c': "\<forall>s. r < s \<and> s \<le> fsize \<longrightarrow> \<not> fits wrap t st mw mh s"
    using c nofit split by blast
  have d': "fits wrap t st mw mh r \<or>
            (r = mn \<and> (\<forall>s. mn \<le> s \<and> s \<le> fsize \<longrightarrow> \<not> fits wrap t st mw mh s))"
    using d nofit split by blast
  from b have b': "r \<le> fsize" by arith
  show ?thesis unfolding chosen_ok_def using a b' c' d' by blast
qed

lemma fitting_loop_size:
  "mn \<le> fsize \<Longrightarrow>
   chosen_ok wrap t st mw mh mn fsize (snd (fitting_loop wrap t st mw mh mn fsize lp))"
proof (induction wrap t st mw mh mn fsize lp rule: fitting_loop.induct)
  case (1 wrap t st mw mh mn fsize lp)
  show ?case
  proof (cases "fits wrap t st mw mh fsize")
    case True
    with "1.prems" show ?thesis by (auto simp add: fitting_loop_fit chosen_ok_def)
  next
    case nofit: False
    show ?thesis
    proof (cases "mn \<le> fsize - 1")
      case True
      have "chosen_ok wrap t st mw mh mn (fsize - 1)
              (snd (fitting_loop wrap t st mw mh mn (fsize - 1) (Some (sized_paragraph t st fsize))))"
        using "1.IH"[OF "1.prems" refl refl _ True] nofit by (simp add: fits_def)
      then show ?thesis
        using chosen_ok_step nofit "1.prems" by (simp add: fitting_loop_shrink)
    next
      case False
      with "1.prems" have eq: "fsize = mn" by arith
      have one: "\<And>s. mn \<le> s \<Longrightarrow> s \<le> mn \<Longrightarrow> s = mn" by arith
      show ?thesis using nofit eq one
        by (auto simp add: fitting_loop_shrink fitting_loop_below chosen_ok_def)
    qed
  qed
qed

text \<open>The paragraph returned is the one built at the returned size.\<close>

lemma fitting_loop_para:
  "mn \<le> fsize \<Longrightarrow>
   fst (fitting_loop wrap t st mw mh mn fsize lp) =
   Some (sized_paragraph t st (snd (fitting_loop wrap t st mw mh mn fsize lp)))"
proof (induction wrap t st mw mh mn fsize lp rule: fitting_loop.induct)
  case (1 wrap t st mw mh mn fsize lp)
  show ?case
  proof (cases "fits wrap t st mw mh fsize")
    case True
    with "1.prems" show ?thesis by (simp add: fitting_loop_fit)
  next
    case nofit: False
    show ?thesis
    proof (cases "mn \<le> fsize - 1")
      case True
      show ?thesis
        using "1.IH"[OF "1.prems" refl refl _ True] nofit "1.prems"
        by (simp add: fitting_loop_shrink fits_def)
    next
      case False
      with "1.prems" have eq: "fsize = mn" by arith
      show ?thesis using nofit eq
        by (simp add: fitting_loop_shrink fitting_loop_below)
    qed
  qed
qed

text \<open>
  C5. With \<open>min_font_size \<le> base_font_size\<close> the size returned by
  \<open>create_fitting_paragraph\<close> lies between the two; it is the largest size in that range
  at which the wrapped height is at most the usable height, or \<open>min_font_size\<close> when no
  size of the range fits; when the block fits at \<open>base_font_size\<close> it is
  \<open>base_font_size\<close>. The paragraph returned is the one built at that size.
\<close>

theorem create_fitting_paragraph_size:
  assumes "min_font_size \<le> base_font_size"
  shows "(let r = create_fitting_paragraph wrap t st mw mh base_font_size min_font_size;
              s = snd r
          in min_font_size \<le> s \<and> s \<le> base_font_size \<and>
             fst r = Some (sized_paragraph t st s) \<and>
             ((\<exists>u. min_font_size \<le> u \<and> u \<le> base_font_size \<and> fits wrap t st mw mh u) \<longrightarrow>
                fits wrap t st mw mh s \<and>
                (\<forall>u. s < u \<and> u \<le> base_font_size \<longrightarrow> \<not> fits wrap t st mw mh u)) \<and>
             ((\<forall>u. min_font_size \<le> u \<and> u \<le> base_font_size \<longrightarrow> \<not> fits wrap t st mw mh u) \<longrightarrow>
                s = min_font_size) \<and>
             (fits wrap t st mw mh base_font_size \<longrightarrow> s = base_font_size))"
proof -
  define s where "s = snd (fitting_loop wrap t st mw mh min_font_size base_font_size None)"
  have ok: "chosen_ok wrap t st mw mh min_font_size base_font_size s"
    unfolding s_def by (rule fitting_loop_size [OF assms])
  have p: "fst (fitting_loop wrap t st mw mh min_font_size base_font_size None) =
           Some (sized_paragraph t st s)"
    unfolding s_def by (rule fitting_loop_para [OF assms])
  from ok have a: "min_font_size \<le> s" and b: "s \<le> base_font_size"
    and c: "\<forall>u. s < u \<and> u \<le> base_font_size \<longrightarrow> \<not> fits wrap t st mw mh u"
    and d: "fits wrap t st mw mh s \<or>
            (s = min_font_size \<and>
             (\<forall>u. min_font_size \<le> u \<and> u \<le> base_font_size \<longrightarrow> \<not> fits wrap t st mw mh u))"
    unfolding chosen_ok_def by blast+
  have e: "(\<exists>u. min_font_size \<le> u \<and> u \<le> base_font_size \<and> fits wrap t st mw mh u) \<longrightarrow>
             fits wrap t st mw mh s" using d by blast
  have f: "(\<forall>u. min_font_size \<le> u \<and> u \<le> base_font_size \<longrightarrow> \<not> fits wrap t st mw mh u) \<longrightarrow>
             s = min_font_size" using d a b by blast
  have g: "fits wrap t st mw mh base_font_size \<longrightarrow> s = base_font_size"
  proof
    assume "fits wrap t st mw mh base_font_size"
    with c have "\<not> s < base_font_size" by blast
    with b show "s = base_font_size" by arith
  qed
  show ?thesis
    unfolding create_fitting_paragraph_def Let_def s_def [symmetric]
    using a b p c e f g by blast
qed

text \<open>
  An instance: a block whose height is thirty times the font size, in a frame 486 high,
  from size 20 down to the floor 5. Size 16 is the largest that fits.
\<close>

theorem create_fitting_paragraph_size_witness:
  "(5::int) \<le> 20 \<and>
   snd (create_fitting_paragraph linear_wrap ''Hello.'' plain_style 477 486 20 5) = 16 \<and>
   fits linear_wrap ''Hello.'' plain_style 477 486 16 \<and>
   \<not> fits linear_wrap ''Hello.'' plain_style 477 486 17"
proof -
  have h: "(5::int) \<le> 20" by simp
  have f16: "fits linear_wrap ''Hello.'' plain_style 477 486 16"
    by (simp add: fits_def linear_wrap_def sized_paragraph_def)
  have fit: "\<And>u. fits linear_wrap ''Hello.'' plain_style 477 486 u \<Longrightarrow> u \<le> 16"
    by (simp add: fits_def linear_wrap_def sized_paragraph_def)
  have n17: "\<not> fits linear_wrap ''Hello.'' plain_style 477 486 17"
    using fit [of 17] by auto
  define s where
    "s = snd (create_fitting_paragraph linear_wrap ''Hello.'' plain_style 477 486 20 5)"
  have ex: "\<exists>u::int. 5 \<le> u \<and> u \<le> 20 \<and> fits linear_wrap ''Hello.'' plain_style 477 486 u"
    using f16 by (intro exI [of _ 16]) simp
  from create_fitting_paragraph_size [OF h, of linear_wrap "''Hello.''" plain_style 477 486] ex
  have fs: "fits linear_wrap ''Hello.'' plain_style 477 486 s"
    and top: "\<forall>u. s < u \<and> u \<le> 20 \<longrightarrow> \<not> fits linear_wrap ''Hello.'' plain_style 477 486 u"
    unfolding Let_def s_def by blast+
  from fs have "s \<le> 16" by (rule fit)
  moreover from top f16 have "\<not> s < 16" by auto
  ultimately have "s = 16" by arith
  with h f16 n17 show ?thesis unfolding s_def by simp
qed

subsection \<open>Colour sampling\<close>

declare exponent_up.simps [simp del]

declare exponent_down.simps [simp del]

lemmas float_eval =
  to_double_def ulp_def exponent_def exponent_up.simps exponent_down.simps pow2_def
  round_half_even_def fmul_def fadd_def fdiv_def Let_def

text \<open>The three literals of the luminance, as Python reads them.\<close>

lemma to_double_299: "to_double 0.299 = 5386305154335113 / 2 ^ 54"
  by (simp add: float_eval)

lemma to_double_587: "to_double 0.587 = 2643612981266481 / 2 ^ 52"
  by (simp add: float_eval)

lemma to_double_114: "to_double 0.114 = 8214565720323785 / 2 ^ 56"
  by (simp add: float_eval)

lemma to_double_zero: "to_double 0 = 0"
  by (simp add: float_eval)


lemma luminance_black: "luminance (0, 0, 0) = 0"
  by (simp add: luminance_def fmul_def fadd_def fdiv_def to_double_zero)

lemma luminance_white: "luminance (255, 255, 255) = 1"
  unfolding luminance_def prod.case to_double_299 to_double_587 to_double_114
  by (simp add: float_eval)

lemma luminance_grey: "luminance (127.5, 127.5, 127.5) = 1 / 2"
  unfolding luminance_def prod.case to_double_299 to_double_587 to_double_114
  by (simp add: float_eval)

text \<open>
  For the green the two products are \<open>119.74799999999999\<close> and \<open>7.752\<close> as doubles, their
  sum is \<open>127.49999999999999\<close>, one step below 127.5, and the quotient is the double just
  below one half.
\<close>

lemma fmul_587_204: "fmul (to_double 0.587) 204 = 2106629094446727 / 2 ^ 44"
  unfolding to_double_587 by (simp add: float_eval)

lemma fmul_114_68: "fmul (to_double 0.114) 68 = 4363988038922011 / 2 ^ 49"
  unfolding to_double_114 by (simp add: float_eval)

lemma luminance_green: "luminance (0, 204, 68) = 9007199254740991 / 2 ^ 54"
  unfolding luminance_def prod.case to_double_299 fmul_587_204 fmul_114_68
  by (simp add: float_eval)

text \<open>
  How far the computed luminance is from the exact one. A double is within half a unit in
  the last place of the number it rounds, and for the means of an image, which lie between
  0 and 255, the six roundings and the three literals add up to less than \<open>2 ^ - 50\<close>.
\<close>

lemma pow2_pos: "0 < pow2 e"
  by (simp add: pow2_def)

lemma pow2_succ: "pow2 (e + 1) = 2 * pow2 e"
proof (cases "0 \<le> e")
  case True
  then have "nat (e + 1) = Suc (nat e)" by simp
  with True show ?thesis by (simp add: pow2_def)
next
  case False
  then have "nat (- e) = Suc (nat (- (e + 1)))" by simp
  with False show ?thesis by (simp add: pow2_def)
qed

lemma pow2_pred: "pow2 (e - 1) = pow2 e / 2"
  using pow2_succ [of "e - 1"] by simp

lemma pow2_mono_nat: "pow2 e \<le> pow2 (e + int n)"
proof (induction n)
  case 0
  then show ?case by simp
next
  case (Suc n)
  have "e + int (Suc n) = (e + int n) + 1" by simp
  then have "pow2 (e + int (Suc n)) = 2 * pow2 (e + int n)"
    by (simp only: pow2_succ)
  with Suc pow2_pos [of "e + int n"] show ?case by simp
qed

lemma pow2_mono: "a \<le> b \<Longrightarrow> pow2 a \<le> pow2 b"
  using pow2_mono_nat [of a "nat (b - a)"] by simp

lemma exponent_up_bounds:
  "1 \<le> x \<Longrightarrow> pow2 (exponent_up x) \<le> x \<and> x < 2 * pow2 (exponent_up x)"
proof (induction x rule: exponent_up.induct)
  case (1 x)
  show ?case
  proof (cases "2 \<le> x")
    case True
    then have "1 \<le> x / 2" by simp
    from "1.IH" [OF True this]
    have "pow2 (exponent_up (x / 2)) \<le> x / 2" and "x / 2 < 2 * pow2 (exponent_up (x / 2))"
      by simp_all
    moreover have "exponent_up x = exponent_up (x / 2) + 1"
      using True by (subst exponent_up.simps) simp
    ultimately show ?thesis by (simp add: pow2_succ)
  next
    case False
    then have "exponent_up x = 0" by (subst exponent_up.simps) simp
    with False "1.prems" show ?thesis by (simp add: pow2_def)
  qed
qed

lemma exponent_down_bounds:
  "0 < x \<Longrightarrow> x < 1 \<Longrightarrow> pow2 (exponent_down x) \<le> x \<and> x < 2 * pow2 (exponent_down x)"
proof (induction x rule: exponent_down.induct)
  case (1 x)
  have e: "exponent_down x = exponent_down (2 * x) - 1"
    using "1.prems" by (subst exponent_down.simps) simp
  show ?case
  proof (cases "2 * x < 1")
    case True
    from "1.IH" [OF _ _ True] "1.prems"
    have "pow2 (exponent_down (2 * x)) \<le> 2 * x" and "2 * x < 2 * pow2 (exponent_down (2 * x))"
      by simp_all
    then show ?thesis unfolding e by (simp add: pow2_pred)
  next
    case False
    then have "exponent_down (2 * x) = 0" by (subst exponent_down.simps) simp
    with False "1.prems" show ?thesis unfolding e by (simp add: pow2_def)
  qed
qed

lemma exponent_bounds:
  assumes "x \<noteq> 0"
  shows "pow2 (exponent x) \<le> \<bar>x\<bar> \<and> \<bar>x\<bar> < 2 * pow2 (exponent x)"
proof (cases "1 \<le> \<bar>x\<bar>")
  case True
  then show ?thesis using exponent_up_bounds [of "\<bar>x\<bar>"] by (simp add: exponent_def)
next
  case False
  with assms have "0 < \<bar>x\<bar>" and "\<bar>x\<bar> < 1" by simp_all
  from exponent_down_bounds [OF this] False show ?thesis by (simp add: exponent_def)
qed

lemma round_half_even_near: "\<bar>of_int (round_half_even y) - y\<bar> \<le> 1 / 2"
proof -
  define f where "f = \<lfloor>y\<rfloor>"
  have lo: "of_int f \<le> y" and hi: "y < of_int f + 1" unfolding f_def by linarith+
  have r: "round_half_even y =
      (if y - of_int f < 1 / 2 then f
       else if 1 / 2 < y - of_int f then f + 1
       else if even f then f else f + 1)"
    by (simp add: round_half_even_def Let_def f_def)
  show ?thesis
  proof (cases "y - of_int f < 1 / 2")
    case True
    with r have "round_half_even y = f" by simp
    with lo True show ?thesis by simp
  next
    case False
    show ?thesis
    proof (cases "1 / 2 < y - of_int f")
      case True
      with False r have "round_half_even y = f + 1" by simp
      with hi True show ?thesis by simp
    next
      case nt: False
      with False have h: "y - of_int f = 1 / 2" by simp
      from r False nt have "round_half_even y = f \<or> round_half_even y = f + 1" by simp
      with h show ?thesis by auto
    qed
  qed
qed

lemma ulp_pos: "0 < ulp x"
  by (simp add: ulp_def pow2_pos)

lemma to_double_near: "\<bar>to_double x - x\<bar> \<le> ulp x / 2"
proof -
  define y where "y = x / ulp x"
  have x: "x = y * ulp x" using ulp_pos [of x] by (simp add: y_def)
  have "to_double x - x = (of_int (round_half_even y) - y) * ulp x"
    unfolding to_double_def y_def [symmetric] using x by (simp add: algebra_simps)
  then have "\<bar>to_double x - x\<bar> = \<bar>of_int (round_half_even y) - y\<bar> * ulp x"
    using ulp_pos [of x] by (simp add: abs_mult)
  also have "\<dots> \<le> 1 / 2 * ulp x"
    using round_half_even_near [of y] ulp_pos [of x] by (intro mult_right_mono) simp_all
  finally show ?thesis by simp
qed

text \<open>Below \<open>2 ^ k\<close> the doubles are at most \<open>2 ^ (k - 53)\<close> apart.\<close>

lemma to_double_error:
  assumes "\<bar>x\<bar> < pow2 k" and "- 1021 \<le> k"
  shows "\<bar>to_double x - x\<bar> \<le> pow2 (k - 54)"
proof (cases "x = 0")
  case True
  then show ?thesis using pow2_pos [of "k - 54"] by (simp add: to_double_zero)
next
  case False
  from exponent_bounds [OF False] assms(1) have "pow2 (exponent x) < pow2 k" by simp
  then have "exponent x < k" using pow2_mono [of k "exponent x"] by (cases "exponent x < k") simp_all
  with assms(2) have "max (exponent x) (- 1022) - 52 \<le> k - 53" by simp
  then have "ulp x \<le> pow2 (k - 53)" unfolding ulp_def by (rule pow2_mono)
  also have "\<dots> = 2 * pow2 (k - 54)" using pow2_succ [of "k - 54"] by simp
  finally show ?thesis using to_double_near [of x] by simp
qed

lemma to_double_error_256: "\<bar>x\<bar> < 256 \<Longrightarrow> \<bar>to_double x - x\<bar> \<le> 1 / 2 ^ 46"
  using to_double_error [of x 8] by (simp add: pow2_def)

lemma to_double_error_2: "\<bar>x\<bar> < 2 \<Longrightarrow> \<bar>to_double x - x\<bar> \<le> 1 / 2 ^ 53"
  using to_double_error [of x 1] by (simp add: pow2_def)

lemma abs_bound:
  fixes x :: real
  assumes "\<bar>x\<bar> \<le> e"
  shows "x \<le> e" and "- e \<le> x"
  using assms by (simp_all add: abs_le_iff)

lemma luminance_near:
  assumes r: "0 \<le> r" "r \<le> 255" and g: "0 \<le> g" "g \<le> 255" and b: "0 \<le> b" "b \<le> 255"
  shows "\<bar>luminance (r, g, b) - (0.299 * r + 0.587 * g + 0.114 * b) / 255\<bar> \<le> 1 / 2 ^ 50"
proof -
  define p1 where "p1 = fmul (to_double 0.299) r"
  define p2 where "p2 = fmul (to_double 0.587) g"
  define p3 where "p3 = fmul (to_double 0.114) b"
  define s1 where "s1 = fadd p1 p2"
  define s2 where "s2 = fadd s1 p3"
  define q where "q = to_double (s2 / 255)"
  define c1 :: real where "c1 = 5386305154335113 / 18014398509481984"
  define c2 :: real where "c2 = 2643612981266481 / 4503599627370496"
  define c3 :: real where "c3 = 8214565720323785 / 72057594037927936"
  define e :: real where "e = 1 / 70368744177664"
  have k1: "to_double 0.299 = c1" unfolding to_double_299 c1_def by simp
  have k2: "to_double 0.587 = c2" unfolding to_double_587 c2_def by simp
  have k3: "to_double 0.114 = c3" unfolding to_double_114 c3_def by simp
  have l: "luminance (r, g, b) = q"
    by (simp add: luminance_def p1_def p2_def p3_def s1_def s2_def fdiv_def q_def)
  have b1: "\<bar>c1 * r\<bar> < 256" using r by (simp add: c1_def abs_if)
  have b2: "\<bar>c2 * g\<bar> < 256" using g by (simp add: c2_def abs_if)
  have b3: "\<bar>c3 * b\<bar> < 256" using b by (simp add: c3_def abs_if)
  have "\<bar>p1 - c1 * r\<bar> \<le> e"
    unfolding p1_def fmul_def k1 e_def using to_double_error_256 [OF b1] by simp
  note e1 = abs_bound [OF this]
  have "\<bar>p2 - c2 * g\<bar> \<le> e"
    unfolding p2_def fmul_def k2 e_def using to_double_error_256 [OF b2] by simp
  note e2 = abs_bound [OF this]
  have "\<bar>p3 - c3 * b\<bar> \<le> e"
    unfolding p3_def fmul_def k3 e_def using to_double_error_256 [OF b3] by simp
  note e3 = abs_bound [OF this]
  have u1: "c1 * r \<le> 76.3" "0 \<le> c1 * r" using r by (simp_all add: c1_def)
  have u2: "c2 * g \<le> 149.7" "0 \<le> c2 * g" using g by (simp_all add: c2_def)
  have u3: "c3 * b \<le> 29.1" "0 \<le> c3 * b" using b by (simp_all add: c3_def)
  have es: "0 < e" "e < 1 / 1000" by (simp_all add: e_def)
  have "\<bar>p1 + p2\<bar> < 256" using e1 e2 u1 u2 es by (simp add: abs_less_iff)
  from to_double_error_256 [OF this] have "\<bar>s1 - (p1 + p2)\<bar> \<le> e"
    unfolding s1_def fadd_def e_def by simp
  note e4 = abs_bound [OF this]
  have "\<bar>s1 + p3\<bar> < 256" using e1 e2 e3 e4 u1 u2 u3 es by (simp add: abs_less_iff)
  from to_double_error_256 [OF this] have "\<bar>s2 - (s1 + p3)\<bar> \<le> e"
    unfolding s2_def fadd_def e_def by simp
  note e5 = abs_bound [OF this]
  have "\<bar>s2 / 255\<bar> < 2" using e1 e2 e3 e4 e5 u1 u2 u3 es by (simp add: abs_less_iff)
  from to_double_error_2 [OF this] have "\<bar>q - s2 / 255\<bar> \<le> e / 128"
    unfolding q_def e_def by simp
  note e6 = abs_bound [OF this]
  define x where "x = c1 * r + c2 * g + c3 * b"
  have s2x1: "s2 - x \<le> 5 * e"
    unfolding x_def using e1 e2 e3 e4 e5 by linarith
  have s2x2: "- (5 * e) \<le> s2 - x"
    unfolding x_def using e1 e2 e3 e4 e5 by linarith
  note s2x = s2x1 s2x2
  have d1: "\<bar>c1 - 0.299\<bar> \<le> e / 256" by (simp add: c1_def e_def)
  have d2: "\<bar>c2 - 0.587\<bar> \<le> e / 256" by (simp add: c2_def e_def)
  have d3: "\<bar>c3 - 0.114\<bar> \<le> e / 256" by (simp add: c3_def e_def)
  have "\<bar>(c1 - 0.299) * r\<bar> \<le> e / 256 * 255"
    unfolding abs_mult using d1 r es by (intro mult_mono) simp_all
  note f1 = abs_bound [OF this]
  have "\<bar>(c2 - 0.587) * g\<bar> \<le> e / 256 * 255"
    unfolding abs_mult using d2 g es by (intro mult_mono) simp_all
  note f2 = abs_bound [OF this]
  have "\<bar>(c3 - 0.114) * b\<bar> \<le> e / 256 * 255"
    unfolding abs_mult using d3 b es by (intro mult_mono) simp_all
  note f3 = abs_bound [OF this]
  define y where "y = 0.299 * r + 0.587 * g + 0.114 * b"
  have xy: "x - y = (c1 - 0.299) * r + (c2 - 0.587) * g + (c3 - 0.114) * b"
    by (simp add: x_def y_def algebra_simps)
  have xy1: "x - y \<le> 3 * e"
    unfolding xy using f1 f2 f3 es by linarith
  have xy2: "- (3 * e) \<le> x - y"
    unfolding xy using f1 f2 f3 es by linarith
  define A where "A = q - s2 / 255"
  define B where "B = (s2 - x) / 255"
  define C where "C = (x - y) / 255"
  have t: "q - y / 255 = A + B + C"
    by (simp add: A_def B_def C_def field_simps)
  have A: "A \<le> e / 128" "- (e / 128) \<le> A" using e6 by (simp_all add: A_def)
  have B: "B \<le> 5 * e / 255" "- (5 * e / 255) \<le> B"
    using s2x by (simp_all add: B_def divide_right_mono)
  have C: "C \<le> 3 * e / 255" "- (3 * e / 255) \<le> C"
    using xy1 xy2 by (simp_all add: C_def divide_right_mono)
  have "q - y / 255 \<le> e / 16"
    unfolding t using A B C es by linarith
  moreover have "- (e / 16) \<le> q - y / 255"
    unfolding t using A B C es by linarith
  ultimately have "\<bar>q - y / 255\<bar> \<le> e / 16" by linarith
  then show ?thesis unfolding l y_def e_def by simp
qed

lemma below_band:
  fixes a :: real
  assumes "\<bar>a - x\<bar> \<le> e" and "x + e < t"
  shows "a < t"
  using assms by linarith

lemma above_band:
  fixes a :: real
  assumes "\<bar>a - x\<bar> \<le> e" and "t \<le> x - e"
  shows "\<not> a < t"
  using assms by linarith

text \<open>
  C6, as the code has it. For an image that decodes to the mean colour \<open>(r, g, b)\<close>, the
  text colour is white exactly when the luminance computed in double precision, every
  operation of \<open>(0.299 * r + 0.587 * g + 0.114 * b) / 255.0\<close> rounded, is below the
  threshold, and black otherwise. For means between 0 and 255 the computed luminance is
  within \<open>2 ^ - 50\<close> of the exact one, so the text is white when the exact luminance is
  below the threshold by more than that, and black when it is above the threshold by at
  least that. At the default threshold 0.5 a pure black image gives white text, a pure
  white image black text, and an image whose computed luminance is exactly 0.5, as that of
  the uniform grey 127.5 is, black text.
\<close>

theorem text_color_for_image_threshold:
  assumes "decode path = Inr (r, g, b)"
  shows "(text_color_for_image decode path threshold = White \<longleftrightarrow>
            fdiv (fadd (fadd (fmul (to_double 0.299) r) (fmul (to_double 0.587) g))
                    (fmul (to_double 0.114) b)) 255 < threshold) \<and>
         (text_color_for_image decode path threshold = Black \<longleftrightarrow>
            \<not> fdiv (fadd (fadd (fmul (to_double 0.299) r) (fmul (to_double 0.587) g))
                      (fmul (to_double 0.114) b)) 255 < threshold) \<and>
         (0 \<le> r \<and> r \<le> 255 \<and> 0 \<le> g \<and> g \<le> 255 \<and> 0 \<le> b \<and> b \<le> 255 \<longrightarrow>
            \<bar>fdiv (fadd (fadd (fmul (to_double 0.299) r) (fmul (to_double 0.587) g))
                    (fmul (to_double 0.114) b)) 255 -
             (0.299 * r + 0.587 * g + 0.114 * b) / 255\<bar> \<le> 1 / 2 ^ 50 \<and>
            ((0.299 * r + 0.587 * g + 0.114 * b) / 255 + 1 / 2 ^ 50 < threshold \<longrightarrow>
               text_color_for_image decode path threshold = White) \<and>
            (threshold \<le> (0.299 * r + 0.587 * g + 0.114 * b) / 255 - 1 / 2 ^ 50 \<longrightarrow>
               text_color_for_image decode path threshold = Black)) \<and>
         (r = 0 \<and> g = 0 \<and> b = 0 \<longrightarrow> text_color_for_image decode path 0.5 = White) \<and>
         (r = 255 \<and> g = 255 \<and> b = 255 \<longrightarrow> text_color_for_image decode path 0.5 = Black) \<and>
         (fdiv (fadd (fadd (fmul (to_double 0.299) r) (fmul (to_double 0.587) g))
                 (fmul (to_double 0.114) b)) 255 = 0.5 \<longrightarrow>
            text_color_for_image decode path 0.5 = Black) \<and>
         (r = 127.5 \<and> g = 127.5 \<and> b = 127.5 \<longrightarrow>
            text_color_for_image decode path 0.5 = Black)"
proof -
  have l: "luminance (r, g, b) =
      fdiv (fadd (fadd (fmul (to_double 0.299) r) (fmul (to_double 0.587) g))
              (fmul (to_double 0.114) b)) 255"
    by (simp add: luminance_def)
  have t: "text_color_for_image decode path th =
      (if luminance (r, g, b) < th then White else Black)" for th
    using assms by (simp add: text_color_for_image_def)
  have a: "text_color_for_image decode path threshold = White \<longleftrightarrow>
      luminance (r, g, b) < threshold"
    and b: "text_color_for_image decode path threshold = Black \<longleftrightarrow>
      \<not> luminance (r, g, b) < threshold"
    by (simp_all add: t)
  have n: "0 \<le> r \<and> r \<le> 255 \<and> 0 \<le> g \<and> g \<le> 255 \<and> 0 \<le> b \<and> b \<le> 255 \<longrightarrow>
            \<bar>luminance (r, g, b) - (0.299 * r + 0.587 * g + 0.114 * b) / 255\<bar> \<le> 1 / 2 ^ 50 \<and>
            ((0.299 * r + 0.587 * g + 0.114 * b) / 255 + 1 / 2 ^ 50 < threshold \<longrightarrow>
               text_color_for_image decode path threshold = White) \<and>
            (threshold \<le> (0.299 * r + 0.587 * g + 0.114 * b) / 255 - 1 / 2 ^ 50 \<longrightarrow>
               text_color_for_image decode path threshold = Black)"
  proof
    assume "0 \<le> r \<and> r \<le> 255 \<and> 0 \<le> g \<and> g \<le> 255 \<and> 0 \<le> b \<and> b \<le> 255"
    then have near: "\<bar>luminance (r, g, b) - (0.299 * r + 0.587 * g + 0.114 * b) / 255\<bar>
        \<le> 1 / 2 ^ 50"
      by (intro luminance_near) simp_all
    have w: "(0.299 * r + 0.587 * g + 0.114 * b) / 255 + 1 / 2 ^ 50 < threshold \<longrightarrow>
               text_color_for_image decode path threshold = White"
    proof
      assume "(0.299 * r + 0.587 * g + 0.114 * b) / 255 + 1 / 2 ^ 50 < threshold"
      with near have "luminance (r, g, b) < threshold" by (rule below_band)
      then show "text_color_for_image decode path threshold = White" by (simp add: t)
    qed
    have k: "threshold \<le> (0.299 * r + 0.587 * g + 0.114 * b) / 255 - 1 / 2 ^ 50 \<longrightarrow>
               text_color_for_image decode path threshold = Black"
    proof
      assume "threshold \<le> (0.299 * r + 0.587 * g + 0.114 * b) / 255 - 1 / 2 ^ 50"
      with near have "\<not> luminance (r, g, b) < threshold" by (rule above_band)
      then show "text_color_for_image decode path threshold = Black" by (simp add: t)
    qed
    from near w k show "\<bar>luminance (r, g, b) - (0.299 * r + 0.587 * g + 0.114 * b) / 255\<bar>
        \<le> 1 / 2 ^ 50 \<and>
            ((0.299 * r + 0.587 * g + 0.114 * b) / 255 + 1 / 2 ^ 50 < threshold \<longrightarrow>
               text_color_for_image decode path threshold = White) \<and>
            (threshold \<le> (0.299 * r + 0.587 * g + 0.114 * b) / 255 - 1 / 2 ^ 50 \<longrightarrow>
               text_color_for_image decode path threshold = Black)"
      by (intro conjI)
  qed
  have c: "r = 0 \<and> g = 0 \<and> b = 0 \<longrightarrow> text_color_for_image decode path 0.5 = White"
    by (simp add: t luminance_black)
  have d: "r = 255 \<and> g = 255 \<and> b = 255 \<longrightarrow> text_color_for_image decode path 0.5 = Black"
    by (simp add: t luminance_white)
  have e: "luminance (r, g, b) = 0.5 \<longrightarrow> text_color_for_image decode path 0.5 = Black"
    by (simp add: t)
  have f: "r = 127.5 \<and> g = 127.5 \<and> b = 127.5 \<longrightarrow>
      text_color_for_image decode path 0.5 = Black"
  proof
    assume "r = 127.5 \<and> g = 127.5 \<and> b = 127.5"
    then have "(r, g, b) = (127.5, 127.5, 127.5)" by blast
    then have "luminance (r, g, b) = 1 / 2" by (simp only: luminance_grey)
    then show "text_color_for_image decode path 0.5 = Black" by (simp add: t)
  qed
  from a b n c d e f show ?thesis unfolding l by (intro conjI)
qed

text \<open>
  The sample images: black, white, whose exact luminance 1 is far above 0.5, and the grey,
  whose computed luminance is 0.5.
\<close>

theorem text_color_for_image_threshold_witness:
  "sample_decode ''black.png'' = Inr (0, 0, 0) \<and>
   text_color_for_image sample_decode ''black.png'' 0.5 = White \<and>
   sample_decode ''white.png'' = Inr (255, 255, 255) \<and>
   (0::real) \<le> 255 \<and> (255::real) \<le> 255 \<and>
   (0.5::real) \<le> (0.299 * 255 + 0.587 * 255 + 0.114 * 255) / 255 - 1 / 2 ^ 50 \<and>
   text_color_for_image sample_decode ''white.png'' 0.5 = Black \<and>
   sample_decode ''grey.png'' = Inr (127.5, 127.5, 127.5) \<and>
   fdiv (fadd (fadd (fmul (to_double 0.299) 127.5) (fmul (to_double 0.587) 127.5))
           (fmul (to_double 0.114) 127.5)) 255 = 0.5 \<and>
   text_color_for_image sample_decode ''grey.png'' 0.5 = Black"
proof -
  have k: "sample_decode ''black.png'' = Inr (0, 0, 0)" by (simp add: sample_decode_def)
  have w: "sample_decode ''white.png'' = Inr (255, 255, 255)" by (simp add: sample_decode_def)
  have g: "sample_decode ''grey.png'' = Inr (127.5, 127.5, 127.5)" by (simp add: sample_decode_def)
  have l: "fdiv (fadd (fadd (fmul (to_double 0.299) 127.5) (fmul (to_double 0.587) 127.5))
           (fmul (to_double 0.114) 127.5)) 255 = 0.5"
    using luminance_grey by (simp add: luminance_def)
  have r1: "(0::real) \<le> 255" and r2: "(255::real) \<le> 255" by simp_all
  have far: "(0.5::real) \<le> (0.299 * 255 + 0.587 * 255 + 0.114 * 255) / 255 - 1 / 2 ^ 50"
    by simp
  from text_color_for_image_threshold [where decode = sample_decode and path = "''black.png''"
      and r = 0 and g = 0 and b = 0 and threshold = "0.5"] k
  have 1: "text_color_for_image sample_decode ''black.png'' 0.5 = White" by blast
  from text_color_for_image_threshold [where decode = sample_decode and path = "''white.png''"
      and r = 255 and g = 255 and b = 255 and threshold = "0.5", OF w]
  have "0 \<le> (255::real) \<and> (255::real) \<le> 255 \<and> 0 \<le> (255::real) \<and> (255::real) \<le> 255 \<and>
        0 \<le> (255::real) \<and> (255::real) \<le> 255 \<longrightarrow>
        (0.5 \<le> (0.299 * 255 + 0.587 * 255 + 0.114 * 255) / 255 - 1 / 2 ^ 50 \<longrightarrow>
         text_color_for_image sample_decode ''white.png'' 0.5 = Black)"
    by blast
  with r1 r2 far
  have 2: "text_color_for_image sample_decode ''white.png'' 0.5 = Black" by blast
  from text_color_for_image_threshold [where decode = sample_decode and path = "''grey.png''"
      and r = "127.5" and g = "127.5" and b = "127.5" and threshold = "0.5"] g l
  have 3: "text_color_for_image sample_decode ''grey.png'' 0.5 = Black" by blast
  from k 1 w r1 r2 far 2 g l 3 show ?thesis by (intro conjI)
qed

text \<open>
  C6 as stated fails: the image of mean colour \<open>(0, 204, 68)\<close> has the luminance
  \<open>(0.299 * 0 + 0.587 * 204 + 0.114 * 68) / 255 = 0.5\<close>, which is not below 0.5, and gets
  white text, because the luminance that the code computes is \<open>0.49999999999999994\<close>.
\<close>

theorem text_color_for_image_threshold_counterexample:
  "sample_decode ''green.png'' = Inr (0, 204, 68) \<and>
   (0.299 * 0 + 0.587 * 204 + 0.114 * 68) / 255 = (0.5::real) \<and>
   luminance (0, 204, 68) = 9007199254740991 / 2 ^ 54 \<and>
   text_color_for_image sample_decode ''green.png'' 0.5 = White \<and>
   text_color_for_image sample_decode ''green.png'' 0.5 \<noteq> Black"
proof -
  have g: "sample_decode ''green.png'' = Inr (0, 204, 68)" by (simp add: sample_decode_def)
  have e: "(0.299 * 0 + 0.587 * 204 + 0.114 * 68) / 255 = (0.5::real)" by simp
  have t: "text_color_for_image sample_decode ''green.png'' 0.5 = White"
    by (simp add: text_color_for_image_def g luminance_green)
  from g e luminance_green t show ?thesis by simp
qed

text \<open>
  C7. When decoding the image raises, neither sampler raises: \<open>color_from_image\<close> returns
  \<open>None\<close>, \<open>text_color_for_image\<close> returns black, and the page callback of a page planned
  for that image paints nothing.
\<close>

theorem decode_failure_is_absorbed:
  assumes "decode path = Inl e"
  shows "color_from_image decode path = None \<and>
         text_color_for_image decode path threshold = Black \<and>
         (page_to_image_index n = Some i \<and> i < length image_paths \<and> image_paths ! i = path \<longrightarrow>
            on_page page_to_image_index image_paths decode n = None)"
  using assms by (simp add: color_from_image_def text_color_for_image_def on_page_def)

theorem decode_failure_is_absorbed_witness:
  "sample_decode ''torn.png'' = Inl DecodeError \<and>
   color_from_image sample_decode ''torn.png'' = None \<and>
   text_color_for_image sample_decode ''torn.png'' 0.5 = Black \<and>
   on_page [2 \<mapsto> 0] [''torn.png''] sample_decode 2 = None"
proof -
  have h: "sample_decode ''torn.png'' = Inl DecodeError" by (simp add: sample_decode_def)
  have m: "[2 \<mapsto> 0::nat] (2::nat) = Some 0 \<and> (0::nat) < length [''torn.png''] \<and>
           [''torn.png''] ! 0 = ''torn.png''" by simp
  show ?thesis
    using decode_failure_is_absorbed [where decode = sample_decode and path = "''torn.png''"
        and e = DecodeError and threshold = "0.5" and page_to_image_index = "[2 \<mapsto> 0]"
        and n = 2 and i = 0 and image_paths = "[''torn.png'']"] h m
    by simp
qed

subsection \<open>The merge\<close>

lemma stamp_target: "stamp box width height = target_box width height"
  by (simp add: stamp_def target_box_def)

lemma at_target_set_all_boxes: "at_target width height (set_all_boxes page width height)"
  by (simp add: at_target_def set_all_boxes_def stamp_target)

lemma content_transforms_set_all_boxes:
  "content_transforms (set_all_boxes page width height) = content_transforms page"
  by (simp add: set_all_boxes_def)

lemma set_all_boxes_at_target:
  "at_target width height page \<Longrightarrow> set_all_boxes page width height = page"
  by (simp add: at_target_def set_all_boxes_def stamp_target)

lemma merge_preface_page_within:
  "\<bar>rect_width (mediabox page) - target_w\<bar> \<le> 1 \<Longrightarrow>
   \<bar>rect_height (mediabox page) - target_h\<bar> \<le> 1 \<Longrightarrow>
   merge_preface_page target_w target_h page = Inr (set_all_boxes page target_w target_h)"
  by (simp add: merge_preface_page_def TOL_def)

lemma merge_preface_page_at_target:
  "merge_preface_page target_w target_h page = Inr page' \<Longrightarrow> at_target target_w target_h page'"
  by (auto simp add: merge_preface_page_def Let_def at_target_set_all_boxes split: if_splits)

lemma merge_preface_page_fixed:
  assumes "at_target target_w target_h page"
  shows "merge_preface_page target_w target_h page = Inr page"
proof -
  from assms have m: "mediabox page = target_box target_w target_h"
    by (simp add: at_target_def)
  have w: "rect_width (mediabox page) = target_w" and h: "rect_height (mediabox page) = target_h"
    by (simp_all add: m rect_width_def rect_height_def target_box_def)
  have "merge_preface_page target_w target_h page = Inr (set_all_boxes page target_w target_h)"
    by (rule merge_preface_page_within) (simp_all add: w h)
  with assms show ?thesis by (simp add: set_all_boxes_at_target)
qed

lemma merge_preface_pages_at_target:
  "merge_preface_pages target_w target_h ps = Inr qs \<Longrightarrow> list_all (at_target target_w target_h) qs"
proof (induction ps arbitrary: qs)
  case Nil
  then show ?case by simp
next
  case (Cons p ps)
  then show ?case
    by (auto split: sum.splits dest: merge_preface_page_at_target)
qed

lemma merge_preface_pages_fixed:
  "list_all (at_target target_w target_h) qs \<Longrightarrow> merge_preface_pages target_w target_h qs = Inr qs"
  by (induction qs) (simp_all add: merge_preface_page_fixed)

lemma stamp_all_fixed:
  "list_all (at_target target_w target_h) qs \<Longrightarrow>
   map (\<lambda>page. set_all_boxes page target_w target_h) qs = qs"
  by (induction qs) (simp_all add: set_all_boxes_at_target)

lemma merge_output_at_target:
  assumes "merge_preface_and_book preface inner_book page_width_inch page_height_inch = Inr out"
  shows "list_all (at_target (page_width_inch * 72) (page_height_inch * 72)) out"
proof -
  from assms obtain ps inner front where
    f: "merge_preface_pages (page_width_inch * 72) (page_height_inch * 72) ps = Inr front"
    and o: "out = front @
              map (\<lambda>page. set_all_boxes page (page_width_inch * 72) (page_height_inch * 72)) inner"
    by (auto simp add: merge_preface_and_book_def Let_def split: option.splits sum.splits)
  have "list_all (at_target (page_width_inch * 72) (page_height_inch * 72)) front"
    using f by (rule merge_preface_pages_at_target)
  moreover have "list_all (at_target (page_width_inch * 72) (page_height_inch * 72))
      (map (\<lambda>page. set_all_boxes page (page_width_inch * 72) (page_height_inch * 72)) inner)"
    by (simp add: list_all_iff at_target_set_all_boxes)
  ultimately show ?thesis by (simp add: o)
qed

lemma merge_rerun:
  assumes "list_all (at_target (page_width_inch * 72) (page_height_inch * 72)) out"
  shows "merge_preface_and_book (Some out) (Some []) page_width_inch page_height_inch = Inr out"
    and "merge_preface_and_book (Some []) (Some out) page_width_inch page_height_inch = Inr out"
  using assms
  by (simp_all add: merge_preface_and_book_def Let_def merge_preface_pages_fixed stamp_all_fixed)

lemma merge_wide_page:
  "merge_preface_page 621 630 wide_page = Inr wide_page_merged"
  by (simp add: merge_preface_page_def Let_def wide_page_def wide_page_merged_def target_box_def
      rect_width_def rect_height_def TOL_def translate_by_def scale_by_def
      identity_transformation_def set_all_boxes_def stamp_def add_transformation_def)

lemma merge_near_page:
  "merge_preface_page 621 630 near_page = Inr near_page_merged"
  by (simp add: merge_preface_page_def Let_def near_page_def near_page_merged_def target_box_def
      rect_width_def rect_height_def TOL_def set_all_boxes_def stamp_def)

text \<open>
  C8. A preface page whose width and height are both within one unit of the target gets no
  content transformation: its transformations are unchanged and its five boxes become the
  target rectangle at the origin. Every page that a merge writes has its five boxes at the
  target, and merging the written pages again, as the preface or as the body, returns them
  unchanged.
\<close>

theorem merge_is_idempotent_on_geometry:
  "(\<bar>rect_width (mediabox page) - target_w\<bar> \<le> 1 \<and>
    \<bar>rect_height (mediabox page) - target_h\<bar> \<le> 1 \<longrightarrow>
      (\<exists>page'. merge_preface_page target_w target_h page = Inr page' \<and>
         content_transforms page' = content_transforms page \<and>
         at_target target_w target_h page')) \<and>
   (merge_preface_and_book preface inner_book page_width_inch page_height_inch = Inr out \<longrightarrow>
      list_all (at_target (page_width_inch * 72) (page_height_inch * 72)) out \<and>
      merge_preface_and_book (Some out) (Some []) page_width_inch page_height_inch = Inr out \<and>
      merge_preface_and_book (Some []) (Some out) page_width_inch page_height_inch = Inr out)"
  using merge_preface_page_within [of page target_w target_h]
    merge_output_at_target [of preface inner_book page_width_inch page_height_inch out]
    merge_rerun [of page_width_inch page_height_inch out]
  by (simp add: content_transforms_set_all_boxes at_target_set_all_boxes)

text \<open>
  An instance at the default page size: the page half a point too wide is only stamped, and
  a merge of a wide preface page with that page as the body is unchanged by a second merge.
\<close>

theorem merge_is_idempotent_on_geometry_witness:
  "\<bar>rect_width (mediabox near_page) - 621\<bar> \<le> 1 \<and>
   \<bar>rect_height (mediabox near_page) - 630\<bar> \<le> 1 \<and>
   merge_preface_page 621 630 near_page = Inr near_page_merged \<and>
   content_transforms near_page_merged = content_transforms near_page \<and>
   at_target 621 630 near_page_merged \<and>
   merge_preface_and_book (Some [wide_page]) (Some [near_page]) 8.625 8.75 =
     Inr [wide_page_merged, near_page_merged] \<and>
   merge_preface_and_book (Some [wide_page_merged, near_page_merged]) (Some []) 8.625 8.75 =
     Inr [wide_page_merged, near_page_merged] \<and>
   merge_preface_and_book (Some []) (Some [wide_page_merged, near_page_merged]) 8.625 8.75 =
     Inr [wide_page_merged, near_page_merged]"
proof -
  have tol: "\<bar>rect_width (mediabox near_page) - 621\<bar> \<le> 1 \<and>
             \<bar>rect_height (mediabox near_page) - 630\<bar> \<le> 1"
    by (simp add: near_page_def rect_width_def rect_height_def)
  have one: "merge_preface_page 621 630 near_page = Inr near_page_merged"
    using merge_near_page by simp
  have stamped: "set_all_boxes near_page 621 630 = near_page_merged"
    by (simp add: near_page_def near_page_merged_def set_all_boxes_def stamp_def target_box_def)
  have run: "merge_preface_and_book (Some [wide_page]) (Some [near_page]) 8.625 8.75 =
               Inr [wide_page_merged, near_page_merged]"
    by (simp add: merge_preface_and_book_def Let_def merge_wide_page stamped)
  show ?thesis
    using merge_is_idempotent_on_geometry [where page = near_page and target_w = 621
        and target_h = 630 and preface = "Some [wide_page]" and inner_book = "Some [near_page]"
        and page_width_inch = "8.625" and page_height_inch = "8.75"
        and out = "[wide_page_merged, near_page_merged]"]
      tol one run
    by auto
qed

text \<open>
  C3, as the code has it. A preface page of size \<open>(2 * target_w, target_h)\<close>, with the
  target more than one unit wide and of non-zero height, gets one transformation: the
  uniform scale 1/2, no horizontal offset and the vertical offset \<open>target_h / 4\<close>, which
  centres the half-height content. Its five boxes become the target rectangle at the
  origin.
\<close>

theorem merge_preface_page_double_width:
  assumes w: "rect_width (mediabox page) = 2 * target_w"
    and h: "rect_height (mediabox page) = target_h"
    and tw: "1 < \<bar>target_w\<bar>" and th: "target_h \<noteq> 0"
  shows "\<exists>page'. merge_preface_page target_w target_h page = Inr page' \<and>
           content_transforms page' = content_transforms page @
             [\<lparr>scale_x = 1 / 2, scale_y = 1 / 2, shift_x = 0, shift_y = target_h / 4\<rparr>] \<and>
           at_target target_w target_h page'"
proof -
  from tw have nz: "target_w \<noteq> 0" by auto
  have out: "\<not> \<bar>2 * target_w - target_w\<bar> \<le> 1" using tw by simp
  have s: "min (target_w / (2 * target_w)) (target_h / target_h) = 1 / 2"
    using nz th by simp
  have "merge_preface_page target_w target_h page =
         Inr (set_all_boxes
                (add_transformation (set_all_boxes page (2 * target_w) target_h)
                   \<lparr>scale_x = 1 / 2, scale_y = 1 / 2, shift_x = 0, shift_y = target_h / 4\<rparr>)
                target_w target_h)"
    unfolding merge_preface_page_def Let_def w h s TOL_def
    using out nz th
    by (simp add: translate_by_def scale_by_def identity_transformation_def)
  then show ?thesis
    by (simp add: content_transforms_set_all_boxes at_target_set_all_boxes add_transformation_def)
qed

theorem merge_preface_page_double_width_witness:
  "rect_width (mediabox wide_page) = 2 * 621 \<and> rect_height (mediabox wide_page) = 630 \<and>
   (1::real) < \<bar>621\<bar> \<and> (630::real) \<noteq> 0 \<and>
   merge_preface_page 621 630 wide_page = Inr wide_page_merged \<and>
   content_transforms wide_page_merged =
     content_transforms wide_page @
       [\<lparr>scale_x = 1 / 2, scale_y = 1 / 2, shift_x = 0, shift_y = 630 / 4\<rparr>] \<and>
   at_target 621 630 wide_page_merged"
proof -
  have w: "rect_width (mediabox wide_page) = 2 * 621"
    and h: "rect_height (mediabox wide_page) = 630"
    by (simp_all add: wide_page_def target_box_def rect_width_def rect_height_def)
  have tw: "(1::real) < \<bar>621\<bar>" and th: "(630::real) \<noteq> 0" by simp_all
  have m: "merge_preface_page 621 630 wide_page = Inr wide_page_merged"
    using merge_wide_page by simp
  show ?thesis
    using merge_preface_page_double_width [OF w h tw th] w h m by auto
qed

text \<open>
  C3 as stated fails: at the default page size the page twice as wide is moved up by
  157.5 points, not by zero.
\<close>

theorem merge_preface_page_double_width_counterexample:
  "rect_width (mediabox wide_page) = 2 * (8.625 * 72) \<and>
   rect_height (mediabox wide_page) = 8.75 * 72 \<and>
   merge_preface_page (8.625 * 72) (8.75 * 72) wide_page = Inr wide_page_merged \<and>
   map shift_y (content_transforms wide_page_merged) = [157.5] \<and>
   map shift_y (content_transforms wide_page_merged) \<noteq> [0]"
  using merge_wide_page
  by (simp add: wide_page_def wide_page_merged_def target_box_def rect_width_def rect_height_def)

subsection \<open>Assembling the body document\<close>

lemma create_fitting_paragraph_cases:
  assumes "create_fitting_paragraph wrap t st mw mh base mn = (p, u)"
  shows "(base < mn \<and> p = None \<and> u = mn) \<or> (mn \<le> base \<and> p = Some (sized_paragraph t st u))"
proof (cases "base < mn")
  case True
  with assms show ?thesis
    by (simp add: create_fitting_paragraph_def fitting_loop_below)
next
  case False
  then have le: "mn \<le> base" by simp
  from fitting_loop_para [OF le, of wrap t st mw mh None] assms
  show ?thesis using le by (simp add: create_fitting_paragraph_def)
qed

lemma create_fitting_paragraph_none_iff:
  "fst (create_fitting_paragraph wrap t st mw mh base mn) = None \<longleftrightarrow> base < mn"
  using create_fitting_paragraph_cases [of wrap t st mw mh base mn
      "fst (create_fitting_paragraph wrap t st mw mh base mn)"
      "snd (create_fitting_paragraph wrap t st mw mh base mn)"]
  by auto

declare body_story.simps(2) [simp del]

lemma body_story_small_font:
  "font_size < 5 \<Longrightarrow>
   body_story env image_paths font_size pw ph uw uh k (page_text # rest) = Inl AttributeError"
  by (simp add: body_story.simps(2) create_fitting_paragraph_def fitting_loop_below Let_def)

lemma build_inner_book_small_font:
  "font_size < 5 \<Longrightarrow> pages data \<noteq> [] \<Longrightarrow>
   build_inner_book env data images_dir font_size margin_inch page_width_inch page_height_inch =
     Inl AttributeError"
  by (cases "pages data")
     (simp_all add: build_inner_book_def build_story_def Let_def body_story_small_font)









































text \<open>
  C10. The paragraph that \<open>create_fitting_paragraph\<close> returns is \<open>None\<close> exactly when
  \<open>min_font_size\<close> exceeds \<open>base_font_size\<close>. \<open>build_inner_book\<close> fits with the floor 5 and
  calls \<open>wrap\<close> on the result, so with a base font size below 5 and a manuscript of at
  least one page it ends with \<open>AttributeError\<close>.
\<close>

theorem small_font_size_fails:
  "(fst (create_fitting_paragraph wrap t st mw mh base_font_size min_font_size) = None \<longleftrightarrow>
      base_font_size < min_font_size) \<and>
   (font_size < 5 \<and> pages data \<noteq> [] \<longrightarrow>
      build_inner_book env data images_dir font_size margin_inch page_width_inch page_height_inch =
        Inl AttributeError)"
  using create_fitting_paragraph_none_iff [of wrap t st mw mh base_font_size min_font_size]
    build_inner_book_small_font [of font_size data env images_dir margin_inch page_width_inch
      page_height_inch]
  by blast

theorem small_font_size_fails_witness:
  "(4::int) < 5 \<and> pages book_manuscript \<noteq> [] \<and>
   build_inner_book book_env book_manuscript ''images'' 4 1 8.625 8.75 = Inl AttributeError \<and>
   fst (create_fitting_paragraph linear_wrap ''Hello.'' plain_style 477 486 4 5) = None \<and>
   fst (create_fitting_paragraph linear_wrap ''Hello.'' plain_style 477 486 5 5) \<noteq> None"
proof -
  have p: "pages book_manuscript \<noteq> []" by (simp add: book_manuscript_def)
  show ?thesis
    using small_font_size_fails [of linear_wrap "''Hello.''" plain_style 477 486 4 5 4
        book_manuscript book_env "''images''" 1 "8.625" "8.75"]
      small_font_size_fails [of linear_wrap "''Hello.''" plain_style 477 486 5 5 4
        book_manuscript book_env "''images''" 1 "8.625" "8.75"] p
    by simp
qed

subsection \<open>Image discovery\<close>

text \<open>
  Keys are compared as Python compares the tuples: the numbers first, \<open>\<infinity>\<close> above every
  number, then the lowercased names, character by character, a proper prefix first.
\<close>

lemma load_image_paths_sorted:
  "sorted (map numeric_key (load_image_paths images_dir listing))"
  by (simp add: load_image_paths_def)

lemma load_image_paths_mset:
  "mset (load_image_paths images_dir listing) =
   mset (concat (map (glob_ext images_dir listing) exts))"
  by (simp add: load_image_paths_def)

lemma load_image_paths_stable:
  "filter (\<lambda>p. numeric_key p = k) (load_image_paths images_dir listing) =
   filter (\<lambda>p. numeric_key p = k) (concat (map (glob_ext images_dir listing) exts))"
  by (simp add: load_image_paths_def sort_key_stable)

lemma load_image_paths_nth_mono:
  assumes "i < j" and "j < length (load_image_paths images_dir listing)"
  shows "numeric_key (load_image_paths images_dir listing ! i) \<le>
         numeric_key (load_image_paths images_dir listing ! j)"
proof -
  from assms have i: "i < length (load_image_paths images_dir listing)" by simp
  from assms have "i \<le> j" and j: "j < length (map numeric_key (load_image_paths images_dir listing))"
    by simp_all
  from sorted_nth_mono [OF load_image_paths_sorted this]
  show ?thesis using i assms(2) by simp
qed

lemma key_after_unnumbered:
  assumes "k \<le> k'" and "fst k = (\<infinity>::enat)"
  shows "fst k' = \<infinity> \<and> snd k \<le> (snd k' :: string)"
  using assms by (cases k, cases k') (auto simp add: less_eq_prod_def)

lemma key_numbers_ordered:
  assumes "k \<le> (k' :: enat \<times> string)"
  shows "fst k \<le> fst k'"
  using assms by (cases k, cases k') (auto simp add: less_eq_prod_def)

lemma numeric_key_fst:
  "fst (numeric_key path) =
     (if first_digit_run (splitext_root (basename path)) = [] then \<infinity>
      else enat (int_of_digits (first_digit_run (splitext_root (basename path)))))"
  by (simp add: numeric_key_def Let_def)

lemma numeric_key_snd: "snd (numeric_key path) = lower (splitext_root (basename path))"
  by (simp add: numeric_key_def Let_def)

lemma load_image_paths_example:
  "load_image_paths ''images'' [''img2.png'', ''img10.png'', ''imgA.png'', ''img1.png''] =
     [''images/img1.png'', ''images/img2.png'', ''images/img10.png'', ''images/imgA.png'']"
  by code_simp

text \<open>
  C4. \<open>load_image_paths\<close> returns the files found by the six patterns, each as often as
  found, ordered by the key: the number of the first digit run of the name without its
  extension, then that name in lower case. A name without a digit run has the number
  \<open>\<infinity>\<close>: everything after it in the result has no digit run either and is not below it
  in the order of the lowercased names. Files with equal keys keep the order in which they
  were found. For \<open>img2.png, img10.png, imgA.png, img1.png\<close> the order is
  \<open>img1, img2, img10, imgA\<close>.
\<close>

theorem load_image_paths_order:
  "(let r = load_image_paths images_dir listing in
      mset r = mset (concat (map (glob_ext images_dir listing) exts)) \<and>
      sorted (map numeric_key r) \<and>
      (\<forall>k. filter (\<lambda>p. numeric_key p = k) r =
            filter (\<lambda>p. numeric_key p = k) (concat (map (glob_ext images_dir listing) exts))) \<and>
      (\<forall>p \<in> set r.
         fst (numeric_key p) =
           (if first_digit_run (splitext_root (basename p)) = [] then \<infinity>
            else enat (int_of_digits (first_digit_run (splitext_root (basename p))))) \<and>
         snd (numeric_key p) = lower (splitext_root (basename p))) \<and>
      (\<forall>i j. i < j \<and> j < length r \<longrightarrow>
         fst (numeric_key (r ! i)) \<le> fst (numeric_key (r ! j)) \<and>
         (fst (numeric_key (r ! i)) = fst (numeric_key (r ! j)) \<longrightarrow>
            snd (numeric_key (r ! i)) \<le> snd (numeric_key (r ! j))) \<and>
         (fst (numeric_key (r ! i)) = \<infinity> \<longrightarrow>
            fst (numeric_key (r ! j)) = \<infinity> \<and>
            snd (numeric_key (r ! i)) \<le> snd (numeric_key (r ! j))))) \<and>
   load_image_paths ''images'' [''img2.png'', ''img10.png'', ''imgA.png'', ''img1.png''] =
     [''images/img1.png'', ''images/img2.png'', ''images/img10.png'', ''images/imgA.png'']"
proof -
  define r where "r = load_image_paths images_dir listing"
  have a: "mset r = mset (concat (map (glob_ext images_dir listing) exts))"
    unfolding r_def by (rule load_image_paths_mset)
  have b: "sorted (map numeric_key r)"
    unfolding r_def by (rule load_image_paths_sorted)
  have c: "\<forall>k. filter (\<lambda>p. numeric_key p = k) r =
            filter (\<lambda>p. numeric_key p = k) (concat (map (glob_ext images_dir listing) exts))"
    unfolding r_def by (simp add: load_image_paths_stable)
  have d: "\<forall>p \<in> set r.
         fst (numeric_key p) =
           (if first_digit_run (splitext_root (basename p)) = [] then \<infinity>
            else enat (int_of_digits (first_digit_run (splitext_root (basename p))))) \<and>
         snd (numeric_key p) = lower (splitext_root (basename p))"
    by (simp add: numeric_key_fst numeric_key_snd)
  have e: "\<forall>i j. i < j \<and> j < length r \<longrightarrow>
         fst (numeric_key (r ! i)) \<le> fst (numeric_key (r ! j)) \<and>
         (fst (numeric_key (r ! i)) = fst (numeric_key (r ! j)) \<longrightarrow>
            snd (numeric_key (r ! i)) \<le> snd (numeric_key (r ! j))) \<and>
         (fst (numeric_key (r ! i)) = \<infinity> \<longrightarrow>
            fst (numeric_key (r ! j)) = \<infinity> \<and>
            snd (numeric_key (r ! i)) \<le> snd (numeric_key (r ! j)))"
  proof (intro allI impI)
    fix i j assume ij: "i < j \<and> j < length r"
    then have le: "numeric_key (r ! i) \<le> numeric_key (r ! j)"
      unfolding r_def using load_image_paths_nth_mono by blast
    have 1: "fst (numeric_key (r ! i)) \<le> fst (numeric_key (r ! j))"
      using le by (rule key_numbers_ordered)
    have 2: "fst (numeric_key (r ! i)) = fst (numeric_key (r ! j)) \<longrightarrow>
            snd (numeric_key (r ! i)) \<le> snd (numeric_key (r ! j))"
      using le by (cases "numeric_key (r ! i)", cases "numeric_key (r ! j)")
        (auto simp add: less_eq_prod_def)
    have 3: "fst (numeric_key (r ! i)) = \<infinity> \<longrightarrow>
            fst (numeric_key (r ! j)) = \<infinity> \<and>
            snd (numeric_key (r ! i)) \<le> snd (numeric_key (r ! j))"
      using key_after_unnumbered [OF le] by blast
    from 1 2 3 show "fst (numeric_key (r ! i)) \<le> fst (numeric_key (r ! j)) \<and>
         (fst (numeric_key (r ! i)) = fst (numeric_key (r ! j)) \<longrightarrow>
            snd (numeric_key (r ! i)) \<le> snd (numeric_key (r ! j))) \<and>
         (fst (numeric_key (r ! i)) = \<infinity> \<longrightarrow>
            fst (numeric_key (r ! j)) = \<infinity> \<and>
            snd (numeric_key (r ! i)) \<le> snd (numeric_key (r ! j)))"
      by blast
  qed
  show ?thesis
    unfolding Let_def r_def [symmetric]
    using a b c d e load_image_paths_example by blast
qed

text \<open>
  The sample directory: the numbered images come first by number, then \<open>b\<close> before
  \<open>imgA\<close>; the hidden file and the text file are not listed.
\<close>

theorem load_image_paths_order_witness:
  "load_image_paths ''images'' sample_listing =
     [''images/img1.jpg'', ''images/img2.png'', ''images/img10.PNG'', ''images/b.jpeg'',
      ''images/imgA.png''] \<and>
   map numeric_key (load_image_paths ''images'' sample_listing) =
     [(enat 1, ''img1''), (enat 2, ''img2''), (enat 10, ''img10''), (\<infinity>, ''b''), (\<infinity>, ''imga'')] \<and>
   (3::nat) < 4 \<and> 4 < length (load_image_paths ''images'' sample_listing) \<and>
   ''images/b.jpeg'' \<in> set (load_image_paths ''images'' sample_listing) \<and>
   fst (numeric_key (load_image_paths ''images'' sample_listing ! 3)) = \<infinity> \<and>
   fst (numeric_key (load_image_paths ''images'' sample_listing ! 4)) = \<infinity> \<and>
   snd (numeric_key (load_image_paths ''images'' sample_listing ! 3)) \<le>
     snd (numeric_key (load_image_paths ''images'' sample_listing ! 4))"
proof -
  have r: "load_image_paths ''images'' sample_listing =
     [''images/img1.jpg'', ''images/img2.png'', ''images/img10.PNG'', ''images/b.jpeg'',
      ''images/imgA.png'']"
    by code_simp
  have k: "map numeric_key [''images/img1.jpg'', ''images/img2.png'', ''images/img10.PNG'',
      ''images/b.jpeg'', ''images/imgA.png''] =
     [(enat 1, ''img1''), (enat 2, ''img2''), (enat 10, ''img10''), (\<infinity>, ''b''), (\<infinity>, ''imga'')]"
    by code_simp
  have ks: "map numeric_key (load_image_paths ''images'' sample_listing) =
     [(enat 1, ''img1''), (enat 2, ''img2''), (enat 10, ''img10''), (\<infinity>, ''b''), (\<infinity>, ''imga'')]"
    unfolding r by (rule k)
  have n: "(3::nat) < 4" by simp
  have l: "4 < length (load_image_paths ''images'' sample_listing)" by (simp add: r)
  have mem: "''images/b.jpeg'' \<in> set (load_image_paths ''images'' sample_listing)"
    by (simp add: r)
  have "numeric_key (load_image_paths ''images'' sample_listing ! 3) =
          map numeric_key (load_image_paths ''images'' sample_listing) ! 3"
    using l by simp
  then have k3: "fst (numeric_key (load_image_paths ''images'' sample_listing ! 3)) = \<infinity>"
    unfolding ks by simp
  from load_image_paths_order [of "''images''" sample_listing]
  have "\<forall>i j. i < j \<and> j < length (load_image_paths ''images'' sample_listing) \<longrightarrow>
         (fst (numeric_key (load_image_paths ''images'' sample_listing ! i)) = \<infinity> \<longrightarrow>
            fst (numeric_key (load_image_paths ''images'' sample_listing ! j)) = \<infinity> \<and>
            snd (numeric_key (load_image_paths ''images'' sample_listing ! i)) \<le>
              snd (numeric_key (load_image_paths ''images'' sample_listing ! j)))"
    unfolding Let_def by blast
  from this [rule_format, of 3 4] n l k3
  have k4: "fst (numeric_key (load_image_paths ''images'' sample_listing ! 4)) = \<infinity>"
    and le: "snd (numeric_key (load_image_paths ''images'' sample_listing ! 3)) \<le>
          snd (numeric_key (load_image_paths ''images'' sample_listing ! 4))"
    by blast+
  from r ks n l mem k3 k4 le show ?thesis by (intro conjI)
qed

subsection \<open>Text composition\<close>

lemma join_Cons: "ys \<noteq> [] \<Longrightarrow> join sep (x # ys) = x @ sep @ join sep ys"
  by (cases ys) simp_all

lemma join_append:
  "xs \<noteq> [] \<Longrightarrow> ys \<noteq> [] \<Longrightarrow> join sep (xs @ ys) = join sep xs @ sep @ join sep ys"
proof (induction xs)
  case Nil
  then show ?case by simp
next
  case (Cons x xs)
  show ?case
  proof (cases "xs = []")
    case True
    with Cons.prems show ?thesis by (simp add: join_Cons)
  next
    case False
    with Cons show ?thesis by (simp add: join_Cons)
  qed
qed

lemma join_concat:
  "\<forall>xs \<in> set xss. xs \<noteq> [] \<Longrightarrow> join sep (map (join sep) xss) = join sep (concat xss)"
proof (induction xss)
  case Nil
  then show ?case by simp
next
  case (Cons xs xss)
  show ?case
  proof (cases "xss = []")
    case True
    then show ?thesis by simp
  next
    case False
    with Cons.prems have ne: "concat xss \<noteq> []" and x: "xs \<noteq> []"
      by (cases xss, auto)+
    from Cons have ih: "join sep (map (join sep) xss) = join sep (concat xss)" by simp
    from False have "map (join sep) xss \<noteq> []" by simp
    then have "join sep (map (join sep) (xs # xss)) =
        join sep xs @ sep @ join sep (map (join sep) xss)"
      by (simp add: join_Cons)
    also have "\<dots> = join sep (xs @ concat xss)"
      by (simp add: ih join_append [OF x ne])
    finally show ?thesis by simp
  qed
qed

lemma split_blank_nonempty: "split_blank acc cs \<noteq> []"
  by (induction acc cs rule: split_blank.induct) simp_all

lemma join_split_blank: "join [newline, newline] (split_blank acc cs) = rev acc @ cs"
  by (induction acc cs rule: split_blank.induct)
     (simp_all add: join_Cons split_blank_nonempty)

lemma re_split_nonempty: "re_split after acc cs \<noteq> []"
  by (induction after acc cs rule: re_split.induct) simp_all

lemma has_boundary_snoc:
  "has_boundary (xs @ [c]) \<longleftrightarrow>
     has_boundary xs \<or> (xs \<noteq> [] \<and> is_sentence_end (last xs) \<and> is_space c)"
  by (induction xs rule: has_boundary.induct) auto

lemma re_split_parts:
  "(after \<longleftrightarrow> acc \<noteq> [] \<and> is_sentence_end (hd acc)) \<Longrightarrow> \<not> has_boundary (rev acc) \<Longrightarrow>
   (\<forall>p \<in> set (re_split after acc cs). \<not> has_boundary p) \<and>
   (\<forall>p \<in> set (butlast (re_split after acc cs)). p \<noteq> [] \<and> is_sentence_end (last p))"
proof (induction after acc cs rule: re_split.induct)
  case (1 after acc)
  then show ?case by simp
next
  case (2 after acc c cs)
  show ?case
  proof (cases "after \<and> is_space c")
    case True
    with "2.prems" have a: "acc \<noteq> []" and e: "is_sentence_end (hd acc)" by simp_all
    from a have l: "last (rev acc) = hd acc" by (simp add: last_rev)
    from "2.IH"(1) [OF True] have ih:
      "(\<forall>p \<in> set (re_split False [] (dropWhile is_space cs)). \<not> has_boundary p) \<and>
       (\<forall>p \<in> set (butlast (re_split False [] (dropWhile is_space cs))).
          p \<noteq> [] \<and> is_sentence_end (last p))"
      by simp
    have eq: "re_split after acc (c # cs) = rev acc # re_split False [] (dropWhile is_space cs)"
      using True by simp
    show ?thesis
      unfolding eq using ih "2.prems"(2) a e l
      by (simp add: re_split_nonempty)
  next
    case False
    have inv1: "is_sentence_end c \<longleftrightarrow> c # acc \<noteq> [] \<and> is_sentence_end (hd (c # acc))" by simp
    have inv2: "\<not> has_boundary (rev (c # acc))"
      using False "2.prems" by (auto simp add: has_boundary_snoc last_rev)
    have eq: "re_split after acc (c # cs) = re_split (is_sentence_end c) (c # acc) cs"
      using False by auto
    from "2.IH"(2) [OF False inv1 inv2] show ?thesis unfolding eq .
  qed
qed

lemma join_concat_form:
  "xs \<noteq> [] \<Longrightarrow> join sep xs = concat (map (\<lambda>x. x @ sep) (butlast xs)) @ last xs"
  by (induction sep xs rule: join.induct) simp_all

lemma has_blank_line_snoc:
  "has_blank_line (xs @ [c]) \<longleftrightarrow>
     has_blank_line xs \<or> (xs \<noteq> [] \<and> last xs = newline \<and> c = newline)"
  by (induction xs rule: has_blank_line.induct) auto

lemma has_blank_line_iff:
  "has_blank_line s \<longleftrightarrow> (\<exists>i. Suc i < length s \<and> s ! i = newline \<and> s ! Suc i = newline)"
proof (induction s rule: has_blank_line.induct)
  case (1 c d cs)
  have "(\<exists>i. Suc i < length (c # d # cs) \<and> (c # d # cs) ! i = newline \<and>
             (c # d # cs) ! Suc i = newline) \<longleftrightarrow>
        (c = newline \<and> d = newline) \<or>
        (\<exists>j. Suc j < length (d # cs) \<and> (d # cs) ! j = newline \<and> (d # cs) ! Suc j = newline)"
    (is "?L \<longleftrightarrow> ?A \<or> ?R")
  proof
    assume ?L
    then obtain i where i: "Suc i < length (c # d # cs)" "(c # d # cs) ! i = newline"
      "(c # d # cs) ! Suc i = newline" by blast
    show "?A \<or> ?R"
    proof (cases i)
      case 0
      with i show ?thesis by simp
    next
      case (Suc j)
      with i have "Suc j < length (d # cs) \<and> (d # cs) ! j = newline \<and> (d # cs) ! Suc j = newline"
        by simp
      then show ?thesis by blast
    qed
  next
    assume "?A \<or> ?R"
    then show ?L
    proof
      assume ?A
      then have "Suc 0 < length (c # d # cs) \<and> (c # d # cs) ! 0 = newline \<and>
                 (c # d # cs) ! Suc 0 = newline" by simp
      then show ?L by blast
    next
      assume ?R
      then obtain j where "Suc j < length (d # cs) \<and> (d # cs) ! j = newline \<and>
          (d # cs) ! Suc j = newline" by blast
      then have "Suc (Suc j) < length (c # d # cs) \<and> (c # d # cs) ! Suc j = newline \<and>
                 (c # d # cs) ! Suc (Suc j) = newline" by simp
      then show ?L by blast
    qed
  qed
  with 1 show ?case by simp
qed simp_all

lemma has_boundary_iff:
  "has_boundary s \<longleftrightarrow>
     (\<exists>i. Suc i < length s \<and> is_sentence_end (s ! i) \<and> is_space (s ! Suc i))"
proof (induction s rule: has_boundary.induct)
  case (1 c d cs)
  have "(\<exists>i. Suc i < length (c # d # cs) \<and> is_sentence_end ((c # d # cs) ! i) \<and>
             is_space ((c # d # cs) ! Suc i)) \<longleftrightarrow>
        (is_sentence_end c \<and> is_space d) \<or>
        (\<exists>j. Suc j < length (d # cs) \<and> is_sentence_end ((d # cs) ! j) \<and>
             is_space ((d # cs) ! Suc j))"
    (is "?L \<longleftrightarrow> ?A \<or> ?R")
  proof
    assume ?L
    then obtain i where i: "Suc i < length (c # d # cs)" "is_sentence_end ((c # d # cs) ! i)"
      "is_space ((c # d # cs) ! Suc i)" by blast
    show "?A \<or> ?R"
    proof (cases i)
      case 0
      with i show ?thesis by simp
    next
      case (Suc j)
      with i have "Suc j < length (d # cs) \<and> is_sentence_end ((d # cs) ! j) \<and>
          is_space ((d # cs) ! Suc j)"
        by simp
      then show ?thesis by blast
    qed
  next
    assume "?A \<or> ?R"
    then show ?L
    proof
      assume ?A
      then have "Suc 0 < length (c # d # cs) \<and> is_sentence_end ((c # d # cs) ! 0) \<and>
                 is_space ((c # d # cs) ! Suc 0)" by simp
      then show ?L by blast
    next
      assume ?R
      then obtain j where "Suc j < length (d # cs) \<and> is_sentence_end ((d # cs) ! j) \<and>
          is_space ((d # cs) ! Suc j)" by blast
      then have "Suc (Suc j) < length (c # d # cs) \<and> is_sentence_end ((c # d # cs) ! Suc j) \<and>
                 is_space ((c # d # cs) ! Suc (Suc j))" by simp
      then show ?L by blast
    qed
  qed
  with 1 show ?case by simp
qed simp_all

lemma split_blank_pieces:
  "\<not> has_blank_line (rev acc) \<Longrightarrow>
   (acc \<noteq> [] \<and> hd acc = newline \<longrightarrow> cs = [] \<or> hd cs \<noteq> newline) \<Longrightarrow>
   (\<forall>p \<in> set (split_blank acc cs). \<not> has_blank_line p) \<and>
   (\<forall>p \<in> set (butlast (split_blank acc cs)). p = [] \<or> last p \<noteq> newline)"
proof (induction acc cs rule: split_blank.induct)
  case (1 acc)
  then show ?case by simp
next
  case (2 acc c)
  then show ?case by (auto simp add: has_blank_line_snoc last_rev)
next
  case (3 acc c d cs)
  show ?case
  proof (cases "c = newline \<and> d = newline")
    case True
    from "3.IH"(1) [OF True] have ih:
      "(\<forall>p \<in> set (split_blank [] cs). \<not> has_blank_line p) \<and>
       (\<forall>p \<in> set (butlast (split_blank [] cs)). p = [] \<or> last p \<noteq> newline)"
      by simp
    from "3.prems"(2) True have e: "acc = [] \<or> hd acc \<noteq> newline" by auto
    then have l: "rev acc = [] \<or> last (rev acc) \<noteq> newline" by (auto simp add: last_rev)
    have eq: "split_blank acc (c # d # cs) = rev acc # split_blank [] cs"
      using True by simp
    show ?thesis
      unfolding eq using ih "3.prems"(1) l by (simp add: split_blank_nonempty)
  next
    case False
    have inv1: "\<not> has_blank_line (rev (c # acc))"
      using "3.prems" by (auto simp add: has_blank_line_snoc last_rev)
    have inv2: "c # acc \<noteq> [] \<and> hd (c # acc) = newline \<longrightarrow> d # cs = [] \<or> hd (d # cs) \<noteq> newline"
      using False by simp
    have eq: "split_blank acc (c # d # cs) = split_blank (c # acc) (d # cs)"
      using False by auto
    from "3.IH"(2) [OF False inv1 inv2] show ?thesis unfolding eq .
  qed
qed

lemma strip_parts:
  "\<exists>a b. s = a @ strip s @ b \<and> (\<forall>c \<in> set a. is_space c) \<and> (\<forall>c \<in> set b. is_space c)"
proof -
  define d where "d = dropWhile is_space s"
  have 1: "s = takeWhile is_space s @ d" by (simp add: d_def)
  have "d = rev (takeWhile is_space (rev d) @ dropWhile is_space (rev d))"
    by (simp only: takeWhile_dropWhile_id rev_rev_ident)
  also have "\<dots> = rev (dropWhile is_space (rev d)) @ rev (takeWhile is_space (rev d))"
    by (rule rev_append)
  finally have 2: "d = strip s @ rev (takeWhile is_space (rev d))"
    by (simp only: strip_def d_def)
  have 3: "\<forall>c \<in> set (takeWhile is_space s). is_space c" by (auto dest: set_takeWhileD)
  have 4: "\<forall>c \<in> set (rev (takeWhile is_space (rev d))). is_space c"
    by (auto dest: set_takeWhileD)
  from 1 2 have "s = takeWhile is_space s @ strip s @ rev (takeWhile is_space (rev d))" by simp
  with 3 4 show ?thesis by blast
qed

lemma strip_ends:
  assumes "strip s \<noteq> []"
  shows "\<not> is_space (hd (strip s)) \<and> \<not> is_space (last (strip s))"
proof -
  define t where "t = dropWhile is_space (rev (dropWhile is_space s))"
  from assms have ne: "t \<noteq> []" by (simp add: strip_def t_def)
  then have h: "\<not> is_space (hd t)" unfolding t_def by (rule hd_dropWhile)
  have s: "strip s = rev t" by (simp add: strip_def t_def)
  have dne: "dropWhile is_space s \<noteq> []"
    using ne by (cases "dropWhile is_space s = []") (simp_all add: t_def)
  then have "\<not> is_space (hd (dropWhile is_space s))" by (rule hd_dropWhile)
  moreover have "last t = hd (dropWhile is_space s)"
  proof -
    have u: "rev (dropWhile is_space s) = takeWhile is_space (rev (dropWhile is_space s)) @ t"
      by (simp add: t_def)
    from ne have "last (rev (dropWhile is_space s)) = last t"
      by (subst u) simp
    moreover have "last (rev (dropWhile is_space s)) = hd (dropWhile is_space s)"
      using dne by (simp add: last_rev)
    ultimately show ?thesis by simp
  qed
  ultimately have l: "\<not> is_space (last t)" by simp
  from ne h l show ?thesis unfolding s by (simp add: hd_rev last_rev)
qed

lemma strip_fixed:
  assumes "s \<noteq> []" and "\<not> is_space (hd s)" and "\<not> is_space (last s)"
  shows "strip s = s"
proof -
  from assms have 1: "dropWhile is_space s = s" by (cases s) auto
  from assms have "rev s \<noteq> []" and "\<not> is_space (hd (rev s))" by (simp_all add: hd_rev)
  then have 2: "dropWhile is_space (rev s) = rev s" by (cases "rev s") auto
  show ?thesis by (simp add: strip_def 1 2)
qed

lemma strip_strip: "strip (strip s) = strip s"
proof (cases "strip s = []")
  case True
  show ?thesis unfolding True by (simp add: strip_def)
next
  case False
  with strip_ends [OF False] show ?thesis by (intro strip_fixed) simp_all
qed

lemma split_into_sentences_strip:
  "split_into_sentences text = split_into_sentences (strip text)"
  by (simp add: split_into_sentences_def strip_strip)

lemma split_into_sentences_empty: "split_into_sentences [] = []"
  by (simp add: split_into_sentences_def strip_def)

text \<open>The parts of \<open>re_split\<close> with the white space between them give the text back.\<close>

lemma re_split_weave:
  "\<exists>ws. length ws + 1 = length (re_split after acc cs) \<and>
        (\<forall>w \<in> set ws. w \<noteq> [] \<and> (\<forall>c \<in> set w. is_space c)) \<and>
        rev acc @ cs =
          concat (map2 (@) (butlast (re_split after acc cs)) ws) @ last (re_split after acc cs)"
proof (induction after acc cs rule: re_split.induct)
  case (1 after acc)
  have "length ([]::string list) + 1 = length (re_split after acc []) \<and>
        (\<forall>w \<in> set ([]::string list). w \<noteq> [] \<and> (\<forall>c \<in> set w. is_space c)) \<and>
        rev acc @ [] =
          concat (map2 (@) (butlast (re_split after acc [])) []) @ last (re_split after acc [])"
    by simp
  then show ?case by blast
next
  case (2 after acc c cs)
  show ?case
  proof (cases "after \<and> is_space c")
    case True
    define rest where "rest = re_split False [] (dropWhile is_space cs)"
    from "2.IH"(1) [OF True] obtain ws where
      l: "length ws + 1 = length rest"
      and w: "\<forall>w \<in> set ws. w \<noteq> [] \<and> (\<forall>c \<in> set w. is_space c)"
      and e: "dropWhile is_space cs = concat (map2 (@) (butlast rest) ws) @ last rest"
      unfolding rest_def by auto
    have ne: "rest \<noteq> []" unfolding rest_def by (rule re_split_nonempty)
    have eq: "re_split after acc (c # cs) = rev acc # rest"
      using True by (simp add: rest_def)
    define w0 where "w0 = c # takeWhile is_space cs"
    have w0: "w0 \<noteq> [] \<and> (\<forall>c \<in> set w0. is_space c)"
      using True by (auto simp add: w0_def dest: set_takeWhileD)
    have cs: "c # cs = w0 @ dropWhile is_space cs" by (simp add: w0_def)
    have "length (w0 # ws) + 1 = length (rev acc # rest)" using l by simp
    moreover have "\<forall>w \<in> set (w0 # ws). w \<noteq> [] \<and> (\<forall>c \<in> set w. is_space c)"
      using w w0 by simp
    moreover have "rev acc @ c # cs =
        concat (map2 (@) (butlast (rev acc # rest)) (w0 # ws)) @ last (rev acc # rest)"
      using ne e by (simp add: cs)
    ultimately show ?thesis unfolding eq by blast
  next
    case False
    have eq: "re_split after acc (c # cs) = re_split (is_sentence_end c) (c # acc) cs"
      using False by auto
    from "2.IH"(2) [OF False] show ?thesis unfolding eq by simp
  qed
qed

text \<open>No part is empty when the text is not empty and does not end with white space.\<close>

lemma re_split_parts_nonempty:
  "(after \<longrightarrow> acc \<noteq> []) \<Longrightarrow> rev acc @ cs \<noteq> [] \<Longrightarrow> \<not> is_space (last (rev acc @ cs)) \<Longrightarrow>
   \<forall>p \<in> set (re_split after acc cs). p \<noteq> []"
proof (induction after acc cs rule: re_split.induct)
  case (1 after acc)
  then show ?case by simp
next
  case (2 after acc c cs)
  show ?case
  proof (cases "after \<and> is_space c")
    case True
    with "2.prems" have a: "acc \<noteq> []" by simp
    from "2.prems"(3) have lc: "\<not> is_space (last (c # cs))" by simp
    with True have cne: "cs \<noteq> []" by auto
    with lc have lcs: "\<not> is_space (last cs)" by simp
    have dne: "dropWhile is_space cs \<noteq> []"
    proof
      assume "dropWhile is_space cs = []"
      then have "\<forall>x \<in> set cs. is_space x" by (simp add: dropWhile_eq_Nil_conv)
      with cne have "is_space (last cs)" by simp
      with lcs show False by simp
    qed
    have "cs = takeWhile is_space cs @ dropWhile is_space cs" by simp
    then have "last cs = last (takeWhile is_space cs @ dropWhile is_space cs)" by simp
    also have "\<dots> = last (dropWhile is_space cs)" using dne by (rule last_appendR)
    finally have dl: "\<not> is_space (last (dropWhile is_space cs))" using lcs by simp
    from "2.IH"(1) [OF True] dne dl
    have ih: "\<forall>p \<in> set (re_split False [] (dropWhile is_space cs)). p \<noteq> []" by simp
    have eq: "re_split after acc (c # cs) = rev acc # re_split False [] (dropWhile is_space cs)"
      using True by simp
    show ?thesis unfolding eq using ih a by simp
  next
    case False
    have eq: "re_split after acc (c # cs) = re_split (is_sentence_end c) (c # acc) cs"
      using False by auto
    from "2.prems"(3) have l: "\<not> is_space (last (rev (c # acc) @ cs))" by simp
    from "2.IH"(2) [OF False _ _ l] show ?thesis unfolding eq by simp
  qed
qed

text \<open>Every part starts with a character that is not white space.\<close>

lemma re_split_parts_start:
  "(acc = [] \<longrightarrow> cs = [] \<or> \<not> is_space (hd cs)) \<Longrightarrow> (acc \<noteq> [] \<longrightarrow> \<not> is_space (last acc)) \<Longrightarrow>
   \<forall>p \<in> set (re_split after acc cs). p = [] \<or> \<not> is_space (hd p)"
proof (induction after acc cs rule: re_split.induct)
  case (1 after acc)
  then show ?case by (auto simp add: hd_rev)
next
  case (2 after acc c cs)
  show ?case
  proof (cases "after \<and> is_space c")
    case True
    have d: "dropWhile is_space cs = [] \<or> \<not> is_space (hd (dropWhile is_space cs))"
      using hd_dropWhile [of is_space cs] by blast
    from "2.IH"(1) [OF True] d
    have ih: "\<forall>p \<in> set (re_split False [] (dropWhile is_space cs)). p = [] \<or> \<not> is_space (hd p)"
      by simp
    have eq: "re_split after acc (c # cs) = rev acc # re_split False [] (dropWhile is_space cs)"
      using True by simp
    have "rev acc = [] \<or> \<not> is_space (hd (rev acc))"
      using "2.prems"(2) by (auto simp add: hd_rev)
    then show ?thesis unfolding eq using ih by simp
  next
    case False
    have eq: "re_split after acc (c # cs) = re_split (is_sentence_end c) (c # acc) cs"
      using False by auto
    have l: "c # acc \<noteq> [] \<longrightarrow> \<not> is_space (last (c # acc))"
      using "2.prems" by (cases "acc = []") simp_all
    from "2.IH"(2) [OF False _ l] show ?thesis unfolding eq by simp
  qed
qed

text \<open>
  For a text that is not empty and neither starts nor ends with white space, as every
  paragraph is, the sentences are all parts of the split.
\<close>

lemma split_into_sentences_stripped:
  assumes "t \<noteq> []" and "\<not> is_space (hd t)" and "\<not> is_space (last t)"
  shows "split_into_sentences t = re_split False [] t"
proof -
  have s: "strip t = t" using assms by (rule strip_fixed)
  have "\<forall>p \<in> set (re_split False [] t). p \<noteq> []"
    using assms by (intro re_split_parts_nonempty) simp_all
  then have "filter (\<lambda>p. p \<noteq> []) (re_split False [] t) = re_split False [] t"
    by (simp add: filter_id_conv)
  then show ?thesis by (simp add: split_into_sentences_def s)
qed

lemma raw_chunk_stripped:
  assumes "chunk \<in> set (raw_chunks page_text)"
  shows "chunk \<noteq> [] \<and> \<not> is_space (hd chunk) \<and> \<not> is_space (last chunk)"
proof -
  from assms obtain p where c: "chunk = strip p" and ne: "chunk \<noteq> []"
    by (auto simp add: raw_chunks_def)
  from strip_ends [of p] c ne show ?thesis by simp
qed

lemma is_space_iff:
  "is_space c \<longleftrightarrow> of_char c \<in> {9, 10, 11, 12, 13, 28, 29, 30, 31, 32 :: nat}"
  unfolding is_space_def Let_def by (simp, arith)

text \<open>
  C9, as the code has it. The block of a page is all sentences of all its paragraphs, in
  order, each but the last followed by the one break \<open><br/><br/>\<close>: sentences and
  paragraphs are joined by the same break. The pieces of the text are what lies between
  double newlines, the leftmost double newline cut first: put together with double
  newlines they give the text back, no piece holds two newlines in a row, and no piece
  before a cut ends with a newline. The paragraphs are the pieces without the white space
  at their two ends, those left out of which nothing remains. The sentences of a
  paragraph, with a run of white space between each two, are the paragraph; every
  sentence starts with a character that is not white space and holds no \<open>.\<close>, \<open>!\<close> or
  \<open>?\<close> followed by white space, and every sentence but the last ends with \<open>.\<close>, \<open>!\<close> or
  \<open>?\<close>. The sentence splitter strips its text itself and finds no sentence in an empty
  one. White space is the ASCII characters 9 to 13 and 28 to 32.
\<close>

theorem compose_html_structure:
  "(let pieces = split_blank [] page_text;
        chunks = raw_chunks page_text;
        sentences = concat (map split_into_sentences chunks)
    in compose_html page_text =
         (if sentences = [] then []
          else concat (map (\<lambda>s. s @ ''<br/><br/>'') (butlast sentences)) @ last sentences) \<and>
       pieces \<noteq> [] \<and>
       page_text = concat (map (\<lambda>p. p @ [CHR 0x0A, CHR 0x0A]) (butlast pieces)) @ last pieces \<and>
       (\<forall>p \<in> set pieces. \<forall>i. Suc i < length p \<longrightarrow> p ! i \<noteq> CHR 0x0A \<or> p ! Suc i \<noteq> CHR 0x0A) \<and>
       (\<forall>p \<in> set (butlast pieces). p \<noteq> [] \<longrightarrow> last p \<noteq> CHR 0x0A) \<and>
       chunks = filter (\<lambda>p. p \<noteq> []) (map strip pieces) \<and>
       (\<forall>chunk \<in> set chunks.
          split_into_sentences chunk \<noteq> [] \<and>
          (\<exists>ws. length ws + 1 = length (split_into_sentences chunk) \<and>
                (\<forall>w \<in> set ws. w \<noteq> [] \<and> (\<forall>c \<in> set w. is_space c)) \<and>
                chunk = concat (map2 (@) (butlast (split_into_sentences chunk)) ws) @
                          last (split_into_sentences chunk)) \<and>
          (\<forall>s \<in> set (split_into_sentences chunk).
             s \<noteq> [] \<and> \<not> is_space (hd s) \<and>
             (\<forall>i. Suc i < length s \<longrightarrow> \<not> (is_sentence_end (s ! i) \<and> is_space (s ! Suc i)))) \<and>
          (\<forall>s \<in> set (butlast (split_into_sentences chunk)). is_sentence_end (last s)))) \<and>
   (\<forall>s. \<exists>a b. s = a @ strip s @ b \<and> (\<forall>c \<in> set a. is_space c) \<and> (\<forall>c \<in> set b. is_space c) \<and>
          (strip s \<noteq> [] \<longrightarrow> \<not> is_space (hd (strip s)) \<and> \<not> is_space (last (strip s)))) \<and>
   (\<forall>s. split_into_sentences s = split_into_sentences (strip s)) \<and>
   split_into_sentences [] = [] \<and>
   (\<forall>c. is_sentence_end c \<longleftrightarrow> c = CHR ''.'' \<or> c = CHR ''!'' \<or> c = CHR ''?'') \<and>
   (\<forall>c. is_space c \<longleftrightarrow> of_char c \<in> {9, 10, 11, 12, 13, 28, 29, 30, 31, 32 :: nat})"
proof -
  define pieces where "pieces = split_blank [] page_text"
  define chunks where "chunks = raw_chunks page_text"
  define sentences where "sentences = concat (map split_into_sentences chunks)"
  have nl: "CHR 0x0A = newline" by (simp add: newline_def)
  have sent: "\<forall>chunk \<in> set chunks.
          split_into_sentences chunk \<noteq> [] \<and>
          (\<exists>ws. length ws + 1 = length (split_into_sentences chunk) \<and>
                (\<forall>w \<in> set ws. w \<noteq> [] \<and> (\<forall>c \<in> set w. is_space c)) \<and>
                chunk = concat (map2 (@) (butlast (split_into_sentences chunk)) ws) @
                          last (split_into_sentences chunk)) \<and>
          (\<forall>s \<in> set (split_into_sentences chunk).
             s \<noteq> [] \<and> \<not> is_space (hd s) \<and>
             (\<forall>i. Suc i < length s \<longrightarrow> \<not> (is_sentence_end (s ! i) \<and> is_space (s ! Suc i)))) \<and>
          (\<forall>s \<in> set (butlast (split_into_sentences chunk)). is_sentence_end (last s))"
  proof
    fix chunk assume "chunk \<in> set chunks"
    then have st: "chunk \<noteq> []" "\<not> is_space (hd chunk)" "\<not> is_space (last chunk)"
      using raw_chunk_stripped unfolding chunks_def by blast+
    have eq: "split_into_sentences chunk = re_split False [] chunk"
      using st by (rule split_into_sentences_stripped)
    have 1: "re_split False [] chunk \<noteq> []" by (rule re_split_nonempty)
    from re_split_weave [of False "[]" chunk]
    have 2: "\<exists>ws. length ws + 1 = length (re_split False [] chunk) \<and>
                (\<forall>w \<in> set ws. w \<noteq> [] \<and> (\<forall>c \<in> set w. is_space c)) \<and>
                chunk = concat (map2 (@) (butlast (re_split False [] chunk)) ws) @
                          last (re_split False [] chunk)"
      by simp
    have ne: "\<forall>p \<in> set (re_split False [] chunk). p \<noteq> []"
      using st by (intro re_split_parts_nonempty) simp_all
    have start: "\<forall>p \<in> set (re_split False [] chunk). p = [] \<or> \<not> is_space (hd p)"
      using st by (intro re_split_parts_start) simp_all
    have inv: "False \<longleftrightarrow> ([]::string) \<noteq> [] \<and> is_sentence_end (hd [])" by simp
    have nb: "\<not> has_boundary (rev [])" by simp
    from re_split_parts [OF inv nb, of chunk]
    have a: "\<forall>p \<in> set (re_split False [] chunk). \<not> has_boundary p"
      and 4: "\<forall>p \<in> set (butlast (re_split False [] chunk)). is_sentence_end (last p)"
      by blast+
    have 3: "\<forall>s \<in> set (re_split False [] chunk).
             s \<noteq> [] \<and> \<not> is_space (hd s) \<and>
             (\<forall>i. Suc i < length s \<longrightarrow> \<not> (is_sentence_end (s ! i) \<and> is_space (s ! Suc i)))"
      using ne start a by (auto simp add: has_boundary_iff)
    from 1 2 3 4 show "split_into_sentences chunk \<noteq> [] \<and>
          (\<exists>ws. length ws + 1 = length (split_into_sentences chunk) \<and>
                (\<forall>w \<in> set ws. w \<noteq> [] \<and> (\<forall>c \<in> set w. is_space c)) \<and>
                chunk = concat (map2 (@) (butlast (split_into_sentences chunk)) ws) @
                          last (split_into_sentences chunk)) \<and>
          (\<forall>s \<in> set (split_into_sentences chunk).
             s \<noteq> [] \<and> \<not> is_space (hd s) \<and>
             (\<forall>i. Suc i < length s \<longrightarrow> \<not> (is_sentence_end (s ! i) \<and> is_space (s ! Suc i)))) \<and>
          (\<forall>s \<in> set (butlast (split_into_sentences chunk)). is_sentence_end (last s))"
      unfolding eq by (intro conjI)
  qed
  then have all_ne: "\<forall>xs \<in> set (map split_into_sentences chunks). xs \<noteq> []"
    by simp
  have m: "map chunk_html cs = map (join ''<br/><br/>'') (map split_into_sentences cs)" for cs
    by (induction cs) (simp_all add: chunk_html_def sentence_break_def)
  from join_concat [OF all_ne, of "''<br/><br/>''"]
  have j: "compose_html page_text = join ''<br/><br/>'' sentences"
    by (simp add: compose_html_def m paragraph_break_def Let_def sentences_def chunks_def)
  have block: "compose_html page_text =
         (if sentences = [] then []
          else concat (map (\<lambda>s. s @ ''<br/><br/>'') (butlast sentences)) @ last sentences)"
    unfolding j by (simp add: join_concat_form)
  have pne: "pieces \<noteq> []" unfolding pieces_def by (rule split_blank_nonempty)
  have "join [newline, newline] pieces = page_text"
    unfolding pieces_def by (simp add: join_split_blank)
  then have whole: "page_text =
      concat (map (\<lambda>p. p @ [CHR 0x0A, CHR 0x0A]) (butlast pieces)) @ last pieces"
    using pne by (simp add: join_concat_form nl)
  have inv1: "\<not> has_blank_line (rev [])" by simp
  have inv2: "([]::string) \<noteq> [] \<and> hd [] = newline \<longrightarrow> page_text = [] \<or> hd page_text \<noteq> newline"
    by simp
  from split_blank_pieces [OF inv1 inv2]
  have p1: "\<forall>p \<in> set pieces. \<not> has_blank_line p"
    and p2: "\<forall>p \<in> set (butlast pieces). p = [] \<or> last p \<noteq> newline"
    unfolding pieces_def by blast+
  from p1 have q1: "\<forall>p \<in> set pieces. \<forall>i. Suc i < length p \<longrightarrow>
      p ! i \<noteq> CHR 0x0A \<or> p ! Suc i \<noteq> CHR 0x0A"
    unfolding nl by (auto simp add: has_blank_line_iff)
  from p2 have q2: "\<forall>p \<in> set (butlast pieces). p \<noteq> [] \<longrightarrow> last p \<noteq> CHR 0x0A"
    unfolding nl by blast
  have ch: "chunks = filter (\<lambda>p. p \<noteq> []) (map strip pieces)"
    by (simp add: chunks_def pieces_def raw_chunks_def)
  have first: "let pieces = split_blank [] page_text;
        chunks = raw_chunks page_text;
        sentences = concat (map split_into_sentences chunks)
    in compose_html page_text =
         (if sentences = [] then []
          else concat (map (\<lambda>s. s @ ''<br/><br/>'') (butlast sentences)) @ last sentences) \<and>
       pieces \<noteq> [] \<and>
       page_text = concat (map (\<lambda>p. p @ [CHR 0x0A, CHR 0x0A]) (butlast pieces)) @ last pieces \<and>
       (\<forall>p \<in> set pieces. \<forall>i. Suc i < length p \<longrightarrow> p ! i \<noteq> CHR 0x0A \<or> p ! Suc i \<noteq> CHR 0x0A) \<and>
       (\<forall>p \<in> set (butlast pieces). p \<noteq> [] \<longrightarrow> last p \<noteq> CHR 0x0A) \<and>
       chunks = filter (\<lambda>p. p \<noteq> []) (map strip pieces) \<and>
       (\<forall>chunk \<in> set chunks.
          split_into_sentences chunk \<noteq> [] \<and>
          (\<exists>ws. length ws + 1 = length (split_into_sentences chunk) \<and>
                (\<forall>w \<in> set ws. w \<noteq> [] \<and> (\<forall>c \<in> set w. is_space c)) \<and>
                chunk = concat (map2 (@) (butlast (split_into_sentences chunk)) ws) @
                          last (split_into_sentences chunk)) \<and>
          (\<forall>s \<in> set (split_into_sentences chunk).
             s \<noteq> [] \<and> \<not> is_space (hd s) \<and>
             (\<forall>i. Suc i < length s \<longrightarrow> \<not> (is_sentence_end (s ! i) \<and> is_space (s ! Suc i)))) \<and>
          (\<forall>s \<in> set (butlast (split_into_sentences chunk)). is_sentence_end (last s)))"
    unfolding Let_def pieces_def [symmetric] chunks_def [symmetric] sentences_def [symmetric]
    using block pne whole q1 q2 ch sent by (intro conjI)
  have second: "\<forall>s. \<exists>a b. s = a @ strip s @ b \<and> (\<forall>c \<in> set a. is_space c) \<and>
          (\<forall>c \<in> set b. is_space c) \<and>
          (strip s \<noteq> [] \<longrightarrow> \<not> is_space (hd (strip s)) \<and> \<not> is_space (last (strip s)))"
    using strip_parts strip_ends by blast
  have again: "\<forall>s. split_into_sentences s = split_into_sentences (strip s)"
    using split_into_sentences_strip by blast
  have third: "\<forall>c. is_sentence_end c \<longleftrightarrow> c = CHR ''.'' \<or> c = CHR ''!'' \<or> c = CHR ''?''"
    by (simp add: is_sentence_end_def)
  have fourth: "\<forall>c. is_space c \<longleftrightarrow> of_char c \<in> {9, 10, 11, 12, 13, 28, 29, 30, 31, 32 :: nat}"
    using is_space_iff by blast
  from first second again split_into_sentences_empty third fourth show ?thesis
    by (intro conjI)
qed

text \<open>
  The sample page: two pieces, two paragraphs, and the three sentences of the first
  paragraph with the one and the two blanks between them.
\<close>

theorem compose_html_structure_witness:
  "split_blank [] sample_text =
     [''one. two!  three'', '' four?'' @ [CHR 0x0A] @ ''five ''] \<and>
   ''one. two!  three'' \<in> set (butlast (split_blank [] sample_text)) \<and>
   last ''one. two!  three'' \<noteq> CHR 0x0A \<and>
   raw_chunks sample_text = [''one. two!  three'', ''four?'' @ [CHR 0x0A] @ ''five''] \<and>
   ''one. two!  three'' \<in> set (raw_chunks sample_text) \<and>
   split_into_sentences ''one. two!  three'' = [''one.'', ''two!'', ''three''] \<and>
   ''one. two!  three'' = concat (map2 (@) [''one.'', ''two!''] ['' '', ''  '']) @ ''three'' \<and>
   ''two!'' \<in> set (butlast (split_into_sentences ''one. two!  three'')) \<and>
   is_sentence_end (last ''two!'') \<and> \<not> is_space (hd ''two!'') \<and>
   compose_html sample_text =
     ''one.<br/><br/>two!<br/><br/>three<br/><br/>four?<br/><br/>five''"
proof -
  have p: "split_blank [] sample_text =
     [''one. two!  three'', '' four?'' @ [CHR 0x0A] @ ''five '']"
    by code_simp
  have c: "raw_chunks sample_text = [''one. two!  three'', ''four?'' @ [CHR 0x0A] @ ''five'']"
    by code_simp
  have s: "split_into_sentences ''one. two!  three'' = [''one.'', ''two!'', ''three'']"
    by code_simp
  have h: "compose_html sample_text =
     ''one.<br/><br/>two!<br/><br/>three<br/><br/>four?<br/><br/>five''"
    by code_simp
  have w: "''one. two!  three'' = concat (map2 (@) [''one.'', ''two!''] ['' '', ''  '']) @ ''three''"
    by simp
  have m0: "''one. two!  three'' \<in> set (butlast (split_blank [] sample_text))"
    unfolding p by simp
  have m: "''one. two!  three'' \<in> set (raw_chunks sample_text)"
    unfolding c by simp
  have m2: "''two!'' \<in> set (split_into_sentences ''one. two!  three'')"
    and m3: "''two!'' \<in> set (butlast (split_into_sentences ''one. two!  three''))"
    unfolding s by simp_all
  have ne: "''one. two!  three'' \<noteq> []" by simp
  note t = compose_html_structure [of sample_text, THEN conjunct1, unfolded Let_def]
  note q1 = t [THEN conjunct2, THEN conjunct2, THEN conjunct2, THEN conjunct2, THEN conjunct1]
  note q2 = t [THEN conjunct2, THEN conjunct2, THEN conjunct2, THEN conjunct2, THEN conjunct2,
      THEN conjunct2]
  from q1 [THEN bspec, OF m0] ne have l: "last ''one. two!  three'' \<noteq> CHR 0x0A" by simp
  note q3 = q2 [THEN bspec, OF m, THEN conjunct2, THEN conjunct2]
  from q3 [THEN conjunct1, THEN bspec, OF m2]
  have st: "\<not> is_space (hd ''two!'')" by (rule conjunct2 [THEN conjunct1])
  from q3 [THEN conjunct2, THEN bspec, OF m3]
  have e: "is_sentence_end (last ''two!'')" .
  from p m0 l c m s w m3 e st h show ?thesis by (intro conjI)
qed

text \<open>
  C9 as stated fails: the break between two paragraphs is the break between two
  sentences, not a larger one. A sentence boundary and a paragraph boundary give the same
  block.
\<close>

theorem compose_html_breaks_counterexample:
  "compose_html ''A. B'' = ''A.<br/><br/>B'' \<and>
   compose_html (''A.'' @ [newline, newline] @ ''B'') = ''A.<br/><br/>B'' \<and>
   sentence_break = ''<br/><br/>'' \<and> paragraph_break = ''<br/><br/>'' \<and>
   \<not> length sentence_break < length paragraph_break"
proof -
  have a: "compose_html ''A. B'' = ''A.<br/><br/>B''" by code_simp
  have b: "compose_html (''A.'' @ [newline, newline] @ ''B'') = ''A.<br/><br/>B''" by code_simp
  show ?thesis using a b by (simp add: sentence_break_def paragraph_break_def)
qed

end
